theory Spec2Isabelle
  imports Complex_Main "HOL-Library.Word" "HOL-Library.Multiset"
begin

unbundle bit_operations_syntax

section \<open>The image codecs of \<^verbatim>\<open>src/codec.js\<close>\<close>

text \<open>
  A shallow embedding of the pixel and byte transformations of \<^verbatim>\<open>src/codec.js\<close>.
  The canvas, the image loader, the configuration and the module \<^verbatim>\<open>./random\<close> are
  not part of the sources; what the codecs take from them is a parameter of the model.
\<close>

subsection \<open>Typed arrays, image data, exceptions, loops\<close>

type_synonym byte = "8 word"

text \<open>
  The browser's \<^verbatim>\<open>ImageData\<close>: \<^verbatim>\<open>data\<close> is a \<^verbatim>\<open>Uint8ClampedArray\<close> of RGBA bytes,
  row-major. The canvas only hands out image data with non-zero sides and
  \<^verbatim>\<open>width * height * 4\<close> bytes.
\<close>

record ImageData =
  width :: nat
  height :: nat
  data :: "byte list"

definition well_formed :: "ImageData \<Rightarrow> bool" where
  "well_formed img \<longleftrightarrow>
     0 < width img \<and> 0 < height img \<and> length (data img) = width img * height img * 4"

text \<open>The exceptions the modelled code can raise.\<close>

datatype js_error = IndexSizeError | RangeError | TypeError | SequenceExhausted

definition bindE :: "'e + 'a \<Rightarrow> ('a \<Rightarrow> 'e + 'b) \<Rightarrow> 'e + 'b" where
  "bindE m f = (case m of Inl e \<Rightarrow> Inl e | Inr x \<Rightarrow> f x)"

text \<open>
  Reading a typed array out of range gives \<^verbatim>\<open>undefined\<close> (\<open>None\<close>); writing out of range
  does nothing, which is what \<open>xs[i := v]\<close> does. Storing \<^verbatim>\<open>undefined\<close> in a
  \<^verbatim>\<open>Uint8ClampedArray\<close> stores 0.
\<close>

definition ta_get :: "byte list \<Rightarrow> nat \<Rightarrow> byte option" where
  "ta_get d i = (if i < length d then Some (d ! i) else None)"

definition ToUint8Clamp :: "byte option \<Rightarrow> byte" where
  "ToUint8Clamp v = (case v of None \<Rightarrow> 0 | Some b \<Rightarrow> b)"

definition ta_set :: "byte list \<Rightarrow> nat \<Rightarrow> byte option \<Rightarrow> byte list" where
  "ta_set d i v = d[i := ToUint8Clamp v]"

text \<open>
  \<^verbatim>\<open>for (let i = i0; i < n; i += step) body\<close>, the body as a state transformer. Every loop of
  the source steps by a positive constant.
\<close>

function for_loop :: "nat \<Rightarrow> nat \<Rightarrow> nat \<Rightarrow> (nat \<Rightarrow> 'a \<Rightarrow> 'a) \<Rightarrow> 'a \<Rightarrow> 'a" where
  "for_loop i n step body s =
     (if i < n \<and> 0 < step then for_loop (i + step) n step body (body i s) else s)"
  by pat_completeness auto
termination
  by (relation "measure (\<lambda>(i, n, step, body, s). n - i)") auto

text \<open>The same loop with a body that can throw: the first exception leaves the loop.\<close>

function for_loopE ::
  "nat \<Rightarrow> nat \<Rightarrow> nat \<Rightarrow> (nat \<Rightarrow> 'a \<Rightarrow> 'e + 'a) \<Rightarrow> 'a \<Rightarrow> 'e + 'a" where
  "for_loopE i n step body s =
     (if i < n \<and> 0 < step
      then (case body i s of Inl e \<Rightarrow> Inl e | Inr s' \<Rightarrow> for_loopE (i + step) n step body s')
      else Inr s)"
  by pat_completeness auto
termination
  by (relation "measure (\<lambda>(i, n, step, body, s). n - i)") auto

declare for_loop.simps [simp del]
declare for_loopE.simps [simp del]

subsection \<open>\<^verbatim>\<open>createCodec\<close> (lines 4-9)\<close>

datatype codec_class = InvertCodec | ShuffleRgbCodec | ShuffleBlockCodec | MosaicCodec

text \<open>
  \<^verbatim>\<open>codecClasses\<close> is created by the object literal \<^verbatim>\<open>{}\<close>, so a property read
  \<^verbatim>\<open>codecClasses[name]\<close> that finds no own property goes on to \<^verbatim>\<open>Object.prototype\<close>.
  The values such a read can give:
\<close>

datatype js_value =
    Undefined
  | Class codec_class
  | ObjectConstructor
  | BuiltinMethod
  | ObjectPrototype

datatype js_object = CodecInstance codec_class | PlainObject

text \<open>The own properties, assigned at lines 113, 165, 211 and 314.\<close>

definition codecClasses_own :: "(string \<times> codec_class) list" where
  "codecClasses_own =
     [(''InvertCodec'', InvertCodec),
      (''ShuffleRgbCodec'', ShuffleRgbCodec),
      (''ShuffleBlockCodec'', ShuffleBlockCodec),
      (''MosaicCodec'', MosaicCodec)]"

text \<open>
  The properties of \<^verbatim>\<open>Object.prototype\<close>: \<^verbatim>\<open>constructor\<close> is the function \<^verbatim>\<open>Object\<close>,
  \<^verbatim>\<open>__proto__\<close> reads as \<^verbatim>\<open>Object.prototype\<close> itself, the others are built-in methods,
  which are callable but not constructors.
\<close>

definition Object_prototype :: "(string \<times> js_value) list" where
  "Object_prototype =
     [(''constructor'', ObjectConstructor),
      (''__defineGetter__'', BuiltinMethod),
      (''__defineSetter__'', BuiltinMethod),
      (''hasOwnProperty'', BuiltinMethod),
      (''__lookupGetter__'', BuiltinMethod),
      (''__lookupSetter__'', BuiltinMethod),
      (''isPrototypeOf'', BuiltinMethod),
      (''propertyIsEnumerable'', BuiltinMethod),
      (''toString'', BuiltinMethod),
      (''valueOf'', BuiltinMethod),
      (''__proto__'', ObjectPrototype),
      (''toLocaleString'', BuiltinMethod)]"

definition codecClasses_get :: "string \<Rightarrow> js_value" where
  "codecClasses_get name =
     (case map_of codecClasses_own name of
        Some c \<Rightarrow> Class c
      | None \<Rightarrow> (case map_of Object_prototype name of Some v \<Rightarrow> v | None \<Rightarrow> Undefined))"

definition truthy :: "js_value \<Rightarrow> bool" where
  "truthy v \<longleftrightarrow> v \<noteq> Undefined"

text \<open>\<^verbatim>\<open>new C()\<close>: a \<^verbatim>\<open>TypeError\<close> when \<^verbatim>\<open>C\<close> is not a constructor.\<close>

definition js_new :: "js_value \<Rightarrow> js_error + js_object" where
  "js_new v =
     (case v of
        Class c \<Rightarrow> Inr (CodecInstance c)
      | ObjectConstructor \<Rightarrow> Inr PlainObject
      | _ \<Rightarrow> Inl TypeError)"

text \<open>\<open>codecName\<close> is \<^verbatim>\<open>getConfig().codecName\<close>.\<close>

definition createCodec :: "string \<Rightarrow> js_error + js_object" where
  "createCodec codecName =
     (let CodecClass =
        (if truthy (codecClasses_get codecName) then codecClasses_get codecName
         else Class ShuffleBlockCodec)
      in js_new CodecClass)"

subsection \<open>\<^verbatim>\<open>InvertCodec\<close> (lines 100-112)\<close>

text \<open>
  \<^verbatim>\<open>~data[i] & 0xFF\<close>: the operand becomes a 32-bit integer (\<^verbatim>\<open>undefined\<close> becomes 0), is
  complemented and masked; the result is between 0 and 255 and is stored as it is.
\<close>

definition ToInt32 :: "byte option \<Rightarrow> 32 word" where
  "ToInt32 v = (case v of None \<Rightarrow> 0 | Some b \<Rightarrow> ucast b)"

definition invert_value :: "byte option \<Rightarrow> byte" where
  "invert_value v = ucast (NOT (ToInt32 v) AND 0xFF)"

definition invertColor_body :: "nat \<Rightarrow> byte list \<Rightarrow> byte list" where
  "invertColor_body i d =
     (let d1 = d[i := invert_value (ta_get d i)];
          d2 = d1[i + 1 := invert_value (ta_get d1 (i + 1))];
          d3 = d2[i + 2 := invert_value (ta_get d2 (i + 2))]
      in d3)"

definition InvertCodec_invertColor :: "ImageData \<Rightarrow> ImageData" where
  "InvertCodec_invertColor imgData =
     imgData\<lparr>data := for_loop 0 (length (data imgData)) 4 invertColor_body (data imgData)\<rparr>"

definition InvertCodec_doEncrypt :: "ImageData \<Rightarrow> ImageData" where
  "InvertCodec_doEncrypt imgData = InvertCodec_invertColor imgData"

definition InvertCodec_doDecrypt :: "ImageData \<Rightarrow> ImageData" where
  "InvertCodec_doDecrypt imgData = InvertCodec_invertColor imgData"

text \<open>What the claim says of one byte at index \<open>k\<close>: alpha is kept, the others complemented.\<close>

definition invert_spec :: "nat \<Rightarrow> byte \<Rightarrow> byte" where
  "invert_spec k b = (if k mod 4 = 3 then b else b XOR 0xFF)"

subsection \<open>\<^verbatim>\<open>RandomSequence\<close>, as the codecs use it\<close>

text \<open>
  Modelled from the spec: the class \<^verbatim>\<open>RandomSequence\<close> of the module \<^verbatim>\<open>./random\<close> is not
  part of the sources. The spec (3, 4.1) describes a sequence object by the outputs of its
  successive \<^verbatim>\<open>next()\<close> calls, which \<open>(n, seed)\<close> determine, and says that a call beyond
  the \<open>n\<close>-th fails. A sequence object is the list of the outputs it has still to give;
  the constructor \<^verbatim>\<open>new RandomSequence(n, seed)\<close> is a parameter
  \<open>RandomSequence :: nat \<Rightarrow> 'seed \<Rightarrow> nat list\<close> of every codec that draws from it.
\<close>

definition seq_next :: "nat list \<Rightarrow> js_error + nat \<times> nat list" where
  "seq_next seq = (case seq of [] \<Rightarrow> Inl SequenceExhausted | k # rest \<Rightarrow> Inr (k, rest))"

text \<open>
  The spec's invariant of a permutation sequence: its \<open>n\<close> outputs are the integers
  \<open>0, \<dots>, n - 1\<close>, each exactly once.
\<close>

definition permutation_sequence :: "(nat \<Rightarrow> 'seed \<Rightarrow> nat list) \<Rightarrow> nat \<Rightarrow> 'seed \<Rightarrow> bool" where
  "permutation_sequence RandomSequence n seed \<longleftrightarrow>
     mset (RandomSequence n seed) = mset [0..<n]"

subsection \<open>\<^verbatim>\<open>ShuffleRgbCodec\<close> (lines 116-164)\<close>

text \<open>\<^verbatim>\<open>buffer[seq.next()] = v\<close> on the pair of the scratch buffer and the sequence.\<close>

definition scatter_put ::
  "byte option \<Rightarrow> byte list \<times> nat list \<Rightarrow> js_error + byte list \<times> nat list" where
  "scatter_put v st =
     (case st of (buffer, seq) \<Rightarrow>
        (case seq_next seq of
           Inl e \<Rightarrow> Inl e
         | Inr (k, seq') \<Rightarrow> Inr (ta_set buffer k v, seq')))"

text \<open>The body of the loop of lines 133-137.\<close>

definition rgb_scatter_body ::
  "byte list \<Rightarrow> nat \<Rightarrow> byte list \<times> nat list \<Rightarrow> js_error + byte list \<times> nat list" where
  "rgb_scatter_body d i st =
     bindE (scatter_put (ta_get d i) st) (\<lambda>st.
     bindE (scatter_put (ta_get d (i + 1)) st) (\<lambda>st.
     scatter_put (ta_get d (i + 2)) st))"

text \<open>The body of the loop of lines 138-142, on the pair of \<^verbatim>\<open>data\<close> and \<^verbatim>\<open>j\<close>.\<close>

definition rgb_copy_back_body :: "byte list \<Rightarrow> nat \<Rightarrow> byte list \<times> nat \<Rightarrow> byte list \<times> nat" where
  "rgb_copy_back_body buffer i st =
     (case st of (d, j) \<Rightarrow>
        (let d1 = ta_set d i (ta_get buffer j);
             d2 = ta_set d1 (i + 1) (ta_get buffer (j + 1));
             d3 = ta_set d2 (i + 2) (ta_get buffer (j + 2))
         in (d3, j + 3)))"

text \<open>
  \<^verbatim>\<open>nRgbs = data.length / 4 * 3\<close>: the length of the data of an image is a multiple of 4,
  where the quotient is exact.
\<close>

definition ShuffleRgbCodec_doEncrypt ::
  "(nat \<Rightarrow> 'seed \<Rightarrow> nat list) \<Rightarrow> 'seed \<Rightarrow> ImageData \<Rightarrow> js_error + ImageData" where
  "ShuffleRgbCodec_doEncrypt RandomSequence randomSeed imgData =
     (let d = data imgData;
          nRgbs = length d div 4 * 3;
          seq = RandomSequence nRgbs randomSeed;
          buffer = replicate nRgbs 0
      in case for_loopE 0 (length d) 4 (rgb_scatter_body d) (buffer, seq) of
           Inl e \<Rightarrow> Inl e
         | Inr (buffer, seq) \<Rightarrow>
             Inr (imgData\<lparr>data :=
               fst (for_loop 0 (length d) 4 (rgb_copy_back_body buffer) (d, 0))\<rparr>))"

text \<open>The body of the loop of lines 150-154, on the pair of \<^verbatim>\<open>buffer\<close> and \<^verbatim>\<open>j\<close>.\<close>

definition rgb_gather_body :: "byte list \<Rightarrow> nat \<Rightarrow> byte list \<times> nat \<Rightarrow> byte list \<times> nat" where
  "rgb_gather_body d i st =
     (case st of (buffer, j) \<Rightarrow>
        (let b1 = ta_set buffer j (ta_get d i);
             b2 = ta_set b1 (j + 1) (ta_get d (i + 1));
             b3 = ta_set b2 (j + 2) (ta_get d (i + 2))
         in (b3, j + 3)))"

text \<open>\<^verbatim>\<open>data[i] = buffer[seq.next()]\<close> on the pair of \<^verbatim>\<open>data\<close> and the sequence.\<close>

definition take_back ::
  "byte list \<Rightarrow> nat \<Rightarrow> byte list \<times> nat list \<Rightarrow> js_error + byte list \<times> nat list" where
  "take_back buffer i st =
     (case st of (d, seq) \<Rightarrow>
        (case seq_next seq of
           Inl e \<Rightarrow> Inl e
         | Inr (k, seq') \<Rightarrow> Inr (ta_set d i (ta_get buffer k), seq')))"

text \<open>The body of the loop of lines 157-161.\<close>

definition rgb_take_back_body ::
  "byte list \<Rightarrow> nat \<Rightarrow> byte list \<times> nat list \<Rightarrow> js_error + byte list \<times> nat list" where
  "rgb_take_back_body buffer i st =
     bindE (take_back buffer i st) (\<lambda>st.
     bindE (take_back buffer (i + 1) st) (\<lambda>st.
     take_back buffer (i + 2) st))"

definition ShuffleRgbCodec_doDecrypt ::
  "(nat \<Rightarrow> 'seed \<Rightarrow> nat list) \<Rightarrow> 'seed \<Rightarrow> ImageData \<Rightarrow> js_error + ImageData" where
  "ShuffleRgbCodec_doDecrypt RandomSequence randomSeed imgData =
     (let d = data imgData;
          nRgbs = length d div 4 * 3;
          buffer = fst (for_loop 0 (length d) 4 (rgb_gather_body d) (replicate nRgbs 0, 0));
          seq = RandomSequence nRgbs randomSeed
      in case for_loopE 0 (length d) 4 (rgb_take_back_body buffer) (d, seq) of
           Inl e \<Rightarrow> Inl e
         | Inr (d', seq) \<Rightarrow> Inr (imgData\<lparr>data := d'\<rparr>))"

subsection \<open>\<^verbatim>\<open>ShuffleBlockCodec\<close> (lines 169-210)\<close>

text \<open>
  The canvas's \<^verbatim>\<open>createImageData(sw, sh)\<close>: an \<^verbatim>\<open>IndexSizeError\<close> when a side is zero,
  otherwise transparent black of that size.
\<close>

definition createImageData :: "nat \<Rightarrow> nat \<Rightarrow> js_error + ImageData" where
  "createImageData sw sh =
     (if sw = 0 \<or> sh = 0 then Inl IndexSizeError
      else Inr \<lparr>width = sw, height = sh, data = replicate (sw * sh * 4) 0\<rparr>)"

text \<open>
  \<^verbatim>\<open>_copyBlock\<close>: the inner loop copies the \<open>8 * 4\<close> bytes of one row of the block, the
  outer loop carries the destination data and the two row starts.
\<close>

definition copyBlock_row :: "byte list \<Rightarrow> nat \<Rightarrow> nat \<Rightarrow> byte list \<Rightarrow> byte list" where
  "copyBlock_row src iSrcStart iDstStart dst =
     for_loop 0 (8 * 4) 1 (\<lambda>i dst. ta_set dst (iDstStart + i) (ta_get src (iSrcStart + i))) dst"

definition copyBlock ::
  "ImageData \<Rightarrow> nat \<Rightarrow> nat \<Rightarrow> ImageData \<Rightarrow> nat \<Rightarrow> nat \<Rightarrow> ImageData" where
  "copyBlock dstImgData dstBlockX dstBlockY srcImgData srcBlockX srcBlockY =
     (let iDstStart = (dstBlockY * width dstImgData + dstBlockX) * 8 * 4;
          iSrcStart = (srcBlockY * width srcImgData + srcBlockX) * 8 * 4
      in dstImgData\<lparr>data :=
           fst (for_loop 0 8 1
             (\<lambda>y (dst, iDstStart, iSrcStart).
                (copyBlock_row (data srcImgData) iSrcStart iDstStart dst,
                 iDstStart + width dstImgData * 4,
                 iSrcStart + width srcImgData * 4))
             (data dstImgData, iDstStart, iSrcStart))\<rparr>)"

text \<open>
  \<^verbatim>\<open>_doCommon\<close>: \<open>handleCopy result blockX blockY newBlockX newBlockY\<close> gives the
  result after the copy. The loops carry the result and the sequence.
\<close>

definition doCommon_body ::
  "(ImageData \<Rightarrow> nat \<Rightarrow> nat \<Rightarrow> nat \<Rightarrow> nat \<Rightarrow> ImageData) \<Rightarrow> nat \<Rightarrow> nat \<Rightarrow> nat \<Rightarrow>
   ImageData \<times> nat list \<Rightarrow> js_error + ImageData \<times> nat list" where
  "doCommon_body handleCopy blockWidth blockY blockX st =
     (case st of (result, seq) \<Rightarrow>
        (case seq_next seq of
           Inl e \<Rightarrow> Inl e
         | Inr (index, seq') \<Rightarrow>
             (let newBlockX = index mod blockWidth;
                  newBlockY = index div blockWidth
              in Inr (handleCopy result blockX blockY newBlockX newBlockY, seq'))))"

definition ShuffleBlockCodec_doCommon ::
  "(nat \<Rightarrow> 'seed \<Rightarrow> nat list) \<Rightarrow> 'seed \<Rightarrow> ImageData \<Rightarrow>
   (ImageData \<Rightarrow> nat \<Rightarrow> nat \<Rightarrow> nat \<Rightarrow> nat \<Rightarrow> ImageData) \<Rightarrow> js_error + ImageData" where
  "ShuffleBlockCodec_doCommon RandomSequence randomSeed imgData handleCopy =
     (let blockWidth = width imgData div 8;
          blockHeight = height imgData div 8
      in case createImageData (blockWidth * 8) (blockHeight * 8) of
           Inl e \<Rightarrow> Inl e
         | Inr result \<Rightarrow>
             (case for_loopE 0 blockHeight 1
                     (\<lambda>blockY. for_loopE 0 blockWidth 1
                        (doCommon_body handleCopy blockWidth blockY))
                     (result, RandomSequence (blockWidth * blockHeight) randomSeed) of
                Inl e \<Rightarrow> Inl e
              | Inr (result, seq) \<Rightarrow> Inr result))"

definition ShuffleBlockCodec_doEncrypt ::
  "(nat \<Rightarrow> 'seed \<Rightarrow> nat list) \<Rightarrow> 'seed \<Rightarrow> ImageData \<Rightarrow> js_error + ImageData" where
  "ShuffleBlockCodec_doEncrypt RandomSequence randomSeed imgData =
     ShuffleBlockCodec_doCommon RandomSequence randomSeed imgData
       (\<lambda>result blockX blockY newBlockX newBlockY.
          copyBlock result newBlockX newBlockY imgData blockX blockY)"

definition ShuffleBlockCodec_doDecrypt ::
  "(nat \<Rightarrow> 'seed \<Rightarrow> nat list) \<Rightarrow> 'seed \<Rightarrow> ImageData \<Rightarrow> js_error + ImageData" where
  "ShuffleBlockCodec_doDecrypt RandomSequence randomSeed imgData =
     ShuffleBlockCodec_doCommon RandomSequence randomSeed imgData
       (\<lambda>result blockX blockY newBlockX newBlockY.
          copyBlock result blockX blockY imgData newBlockX newBlockY)"

subsection \<open>\<^verbatim>\<open>MosaicCodec\<close>, the pixel step (lines 247-280)\<close>

text \<open>
  \<^verbatim>\<open>total += data[i]\<close>: a number, or \<^verbatim>\<open>NaN\<close> (\<open>None\<close>) once a read was out of range.
  (\<open>tot\<close> is the source's \<^verbatim>\<open>total\<close>, a name HOL has taken.)
\<close>

definition add_total :: "nat option \<Rightarrow> byte option \<Rightarrow> nat option" where
  "add_total tot v =
     (case tot of
        None \<Rightarrow> None
      | Some t \<Rightarrow> (case v of None \<Rightarrow> None | Some b \<Rightarrow> Some (t + unat b)))"

text \<open>
  \<^verbatim>\<open>Math.round\<close> rounds to the nearest integer, a half upwards. The quotient
  \<^verbatim>\<open>total / width / height\<close> is taken in the rationals: \<open>total\<close> is at most
  \<open>255 * 32 * 32\<close> and the divisors at most 32, where the quotient of the doubles and
  the exact quotient round to the same integer. (With \<open>width = 0\<close> or \<open>height = 0\<close> the
  total is 0, the quotient is \<^verbatim>\<open>NaN\<close> and nothing is written.) A \<^verbatim>\<open>NaN\<close> is stored as 0, a
  number is clamped to 255. The parameters \<^verbatim>\<open>width\<close> and \<^verbatim>\<open>height\<close> of \<^verbatim>\<open>_mosaic\<close> are
  \<open>blockWidth\<close> and \<open>blockHeight\<close> here, the names of their arguments at line 253.
\<close>

definition Math_round :: "rat \<Rightarrow> int" where
  "Math_round x = \<lfloor>x + 1 / 2\<rfloor>"

definition mosaic_average :: "nat option \<Rightarrow> nat \<Rightarrow> nat \<Rightarrow> byte" where
  "mosaic_average tot blockWidth blockHeight =
     (case tot of
        None \<Rightarrow> 0
      | Some t \<Rightarrow> of_nat (min 255 (nat (Math_round (of_nat t / of_nat blockWidth / of_nat blockHeight)))))"

text \<open>The loops of lines 264-269: the sum of one channel over the block.\<close>

definition mosaic_total :: "byte list \<Rightarrow> nat \<Rightarrow> nat \<Rightarrow> nat \<Rightarrow> nat \<Rightarrow> nat option" where
  "mosaic_total d iStart imgWidth blockWidth blockHeight =
     fst (for_loop 0 blockHeight 1
       (\<lambda>y (tot, iStart).
          (for_loop 0 blockWidth 1 (\<lambda>x tot. add_total tot (ta_get d (iStart + x * 4))) tot,
           iStart + imgWidth * 4))
       (Some 0, iStart))"

text \<open>The loops of lines 273-278: the average is written to the channel over the block.\<close>

definition mosaic_fill :: "byte list \<Rightarrow> nat \<Rightarrow> nat \<Rightarrow> nat \<Rightarrow> nat \<Rightarrow> byte \<Rightarrow> byte list" where
  "mosaic_fill d iStart imgWidth blockWidth blockHeight average =
     fst (for_loop 0 blockHeight 1
       (\<lambda>y (d, iStart).
          (for_loop 0 blockWidth 1 (\<lambda>x d. d[iStart + x * 4 := average]) d,
           iStart + imgWidth * 4))
       (d, iStart))"

definition mosaic_channel :: "nat \<Rightarrow> nat \<Rightarrow> nat \<Rightarrow> nat \<Rightarrow> nat \<Rightarrow> nat \<Rightarrow> byte list \<Rightarrow> byte list" where
  "mosaic_channel imgWidth x y blockWidth blockHeight iChannel d =
     (let iStart = (y * imgWidth + x) * 4 + iChannel;
          tot = mosaic_total d iStart imgWidth blockWidth blockHeight;
          average = mosaic_average tot blockWidth blockHeight
      in mosaic_fill d iStart imgWidth blockWidth blockHeight average)"

definition MosaicCodec_mosaic :: "nat \<Rightarrow> nat \<Rightarrow> nat \<Rightarrow> nat \<Rightarrow> ImageData \<Rightarrow> ImageData" where
  "MosaicCodec_mosaic x y blockWidth blockHeight imgData =
     imgData\<lparr>data :=
       for_loop 0 4 1 (mosaic_channel (width imgData) x y blockWidth blockHeight) (data imgData)\<rparr>"

definition BLOCK_SIZE :: nat where
  "BLOCK_SIZE = 32"

definition MosaicCodec_doEncrypt :: "ImageData \<Rightarrow> ImageData" where
  "MosaicCodec_doEncrypt imgData =
     for_loop 0 (height imgData) BLOCK_SIZE
       (\<lambda>y imgData.
          let blockHeight = min BLOCK_SIZE (height imgData - y)
          in for_loop 0 (width imgData) BLOCK_SIZE
               (\<lambda>x imgData.
                  let blockWidth = min BLOCK_SIZE (width imgData - x)
                  in MosaicCodec_mosaic x y blockWidth blockHeight imgData)
               imgData)
       imgData"

text \<open>
  What the claim says of the byte of channel \<open>c\<close> of the pixel \<open>(x, y)\<close>: the rounded mean
  of that channel over the block of the pixel, whose corner is \<open>(x div 32 * 32, y div 32 * 32)\<close>
  and whose sides are clipped to the image.
\<close>

definition pixel_index :: "nat \<Rightarrow> nat \<Rightarrow> nat \<Rightarrow> nat \<Rightarrow> nat" where
  "pixel_index w x y c = (y * w + x) * 4 + c"

definition block_sum :: "ImageData \<Rightarrow> nat \<Rightarrow> nat \<Rightarrow> nat \<Rightarrow> nat \<Rightarrow> nat \<Rightarrow> nat" where
  "block_sum img x0 y0 bw bh c =
     (\<Sum>y \<leftarrow> [y0..<y0 + bh]. \<Sum>x \<leftarrow> [x0..<x0 + bw].
        unat (data img ! pixel_index (width img) x y c))"

definition rounded_mean :: "nat \<Rightarrow> nat \<Rightarrow> nat" where
  "rounded_mean tot cnt = (2 * tot + cnt) div (2 * cnt)"

definition block_mean :: "ImageData \<Rightarrow> nat \<Rightarrow> nat \<Rightarrow> nat \<Rightarrow> byte" where
  "block_mean img x y c =
     (let x0 = x div 32 * 32; y0 = y div 32 * 32;
          bw = min 32 (width img - x0); bh = min 32 (height img - y0)
      in of_nat (rounded_mean (block_sum img x0 y0 bw bh c) (bw * bh)))"

subsection \<open>\<^verbatim>\<open>MosaicCodec\<close>, the container (lines 242-245 and 282-312)\<close>

text \<open>
  \<^verbatim>\<open>DataView.getUint32(byteOffset)\<close>: big-endian, a \<^verbatim>\<open>RangeError\<close> when the four bytes are
  not all inside the buffer.
\<close>

definition be32 :: "byte list \<Rightarrow> nat" where
  "be32 bs = foldl (\<lambda>a b. a * 256 + unat b) 0 bs"

definition getUint32 :: "byte list \<Rightarrow> nat \<Rightarrow> js_error + nat" where
  "getUint32 buf byteOffset =
     (if byteOffset + 4 \<le> length buf then Inr (be32 (take 4 (drop byteOffset buf)))
      else Inl RangeError)"

definition IEND :: nat where
  "IEND = 0x49454E44"

text \<open>The \<^verbatim>\<open>do ... while\<close> loop of lines 293-297, from \<open>offset\<close>.\<close>

function skip_first_image :: "byte list \<Rightarrow> nat \<Rightarrow> js_error + nat" where
  "skip_first_image buf offset =
     (case getUint32 buf offset of
        Inl e \<Rightarrow> Inl e
      | Inr dataLength \<Rightarrow>
          (case getUint32 buf (offset + 4) of
             Inl e \<Rightarrow> Inl e
           | Inr typeCode \<Rightarrow>
               (if typeCode \<noteq> IEND
                then skip_first_image buf (offset + (8 + dataLength + 4))
                else Inr (offset + (8 + dataLength + 4)))))"
  by pat_completeness auto
termination
proof (relation "measure (\<lambda>(buf, offset). length buf - offset)")
  show "wf (measure (\<lambda>(buf, offset). length buf - offset))"
    by simp
next
  fix buf :: "byte list" and offset dataLength typeCode :: nat
  assume "getUint32 buf offset = Inr dataLength"
  then have "offset + 4 \<le> length buf"
    by (cases "offset + 4 \<le> length buf") (simp_all add: getUint32_def)
  then show "((buf, offset + (8 + dataLength + 4)), buf, offset)
      \<in> measure (\<lambda>(buf, offset). length buf - offset)"
    by simp
qed

declare skip_first_image.simps [simp del]

text \<open>
  What \<^verbatim>\<open>decryptToUrl\<close> returns: the empty string, or the URL of a blob of the given bytes.
\<close>

datatype url = EmptyString | ObjectURL "byte list"

text \<open>The body of the \<^verbatim>\<open>try\<close> block, and \<^verbatim>\<open>decryptToUrl\<close> with its \<^verbatim>\<open>catch\<close>.\<close>

definition decryptToUrl_try :: "byte list \<Rightarrow> js_error + url" where
  "decryptToUrl_try fileBuffer =
     bindE (getUint32 fileBuffer 0) (\<lambda>magic0.
       if magic0 \<noteq> 0x89504E47 then Inr EmptyString
       else bindE (getUint32 fileBuffer 4) (\<lambda>magic1.
         if magic1 \<noteq> 0x0D0A1A0A then Inr EmptyString
         else bindE (skip_first_image fileBuffer 8) (\<lambda>offset.
           if offset \<ge> length fileBuffer then Inr EmptyString
           else Inr (ObjectURL (drop offset fileBuffer)))))"

definition MosaicCodec_decryptToUrl :: "byte list \<Rightarrow> url" where
  "MosaicCodec_decryptToUrl fileBuffer =
     (case decryptToUrl_try fileBuffer of Inl e \<Rightarrow> EmptyString | Inr u \<Rightarrow> u)"

text \<open>
  \<^verbatim>\<open>encryptToBlob\<close>: \<open>toPNG\<close> is the canvas, which renders image data to the bytes of a PNG
  file (\<^verbatim>\<open>putImageData\<close>, \<^verbatim>\<open>toDataURL\<close>, \<^verbatim>\<open>dataUrlToBlob\<close>); the blob of the two parts is their
  concatenation.
\<close>

definition MosaicCodec_encryptToBlob ::
  "(ImageData \<Rightarrow> byte list) \<Rightarrow> ImageData \<Rightarrow> byte list \<Rightarrow> byte list" where
  "MosaicCodec_encryptToBlob toPNG imgData fileBuffer =
     (let newImgBlob = toPNG (MosaicCodec_doEncrypt imgData)
      in newImgBlob @ fileBuffer)"

text \<open>
  The container of the spec (3): the 8 bytes of the PNG signature, then chunks, each a
  4-byte big-endian length, a 4-byte type, the data and a 4-byte CRC; the last chunk, and
  only the last, has the type \<^verbatim>\<open>IEND\<close>.
\<close>

definition PNG_signature :: "byte list" where
  "PNG_signature = [0x89, 0x50, 0x4E, 0x47, 0x0D, 0x0A, 0x1A, 0x0A]"

definition IEND_type :: "byte list" where
  "IEND_type = [0x49, 0x45, 0x4E, 0x44]"

record chunk =
  chunk_type :: "byte list"
  chunk_data :: "byte list"
  chunk_crc :: "byte list"

definition u32_bytes :: "nat \<Rightarrow> byte list" where
  "u32_bytes n = [of_nat (n div 2 ^ 24), of_nat (n div 2 ^ 16), of_nat (n div 2 ^ 8), of_nat n]"

definition chunk_bytes :: "chunk \<Rightarrow> byte list" where
  "chunk_bytes c = u32_bytes (length (chunk_data c)) @ chunk_type c @ chunk_data c @ chunk_crc c"

definition valid_chunk :: "chunk \<Rightarrow> bool" where
  "valid_chunk c \<longleftrightarrow>
     length (chunk_type c) = 4 \<and> length (chunk_crc c) = 4 \<and> length (chunk_data c) < 2 ^ 32"

definition inner_chunks :: "chunk list \<Rightarrow> bool" where
  "inner_chunks cs \<longleftrightarrow> list_all (\<lambda>c. valid_chunk c \<and> chunk_type c \<noteq> IEND_type) cs"

definition IEND_chunk :: "chunk \<Rightarrow> bool" where
  "IEND_chunk c \<longleftrightarrow> valid_chunk c \<and> chunk_type c = IEND_type"

definition png_bytes :: "chunk list \<Rightarrow> chunk \<Rightarrow> byte list" where
  "png_bytes cs iend = PNG_signature @ concat (map chunk_bytes cs) @ chunk_bytes iend"

text \<open>
  The bytes at the place of a chunk do not hold a whole chunk: the header is cut, or the
  length it gives reaches past the end.
\<close>

definition truncated :: "byte list \<Rightarrow> bool" where
  "truncated tail \<longleftrightarrow> length tail < 8 \<or> length tail < 8 + be32 (take 4 tail) + 4"

subsection \<open>Example inputs\<close>

text \<open>The chunks of a smallest PNG file, and a canvas that renders every image to it.\<close>

definition example_IHDR :: chunk where
  "example_IHDR = \<lparr>chunk_type = [0x49, 0x48, 0x44, 0x52],
     chunk_data = [0, 0, 0, 1, 0, 0, 0, 1, 8, 6, 0, 0, 0], chunk_crc = [0x1F, 0x15, 0xC4, 0x89]\<rparr>"

definition example_IEND :: chunk where
  "example_IEND = \<lparr>chunk_type = IEND_type, chunk_data = [], chunk_crc = [0xAE, 0x42, 0x60, 0x82]\<rparr>"

definition example_toPNG :: "ImageData \<Rightarrow> byte list" where
  "example_toPNG img = png_bytes [example_IHDR] example_IEND"

subsection \<open>Auxiliary definitions of the proofs\<close>

text \<open>A left fold that stops at the first exception; \<open>for_loopE\<close> is one.\<close>

fun foldE :: "('a \<Rightarrow> 's \<Rightarrow> 'e + 's) \<Rightarrow> 'a list \<Rightarrow> 's \<Rightarrow> 'e + 's" where
  "foldE f [] s = Inr s"
| "foldE f (x # xs) s = (case f x s of Inl e \<Rightarrow> Inl e | Inr s' \<Rightarrow> foldE f xs s')"

text \<open>One \<^verbatim>\<open>seq.next()\<close> and what is done with the value drawn.\<close>

definition draw :: "('k \<Rightarrow> nat \<Rightarrow> 's \<Rightarrow> 's) \<Rightarrow> 'k \<Rightarrow> 's \<times> nat list \<Rightarrow> js_error + 's \<times> nat list" where
  "draw g k st =
     (case st of (s, seq) \<Rightarrow>
        (case seq_next seq of Inl e \<Rightarrow> Inl e | Inr (i, seq') \<Rightarrow> Inr (g k i s, seq')))"

text \<open>
  In image data of \<open>bw\<close> blocks to the row, the byte \<open>j\<close> lies in the \<open>j div 32\<close>-th
  run of 8 pixels, in the block column \<open>j div 32 mod bw\<close> and the pixel row
  \<open>j div 32 div bw\<close>. \<open>in_block bw X Y j\<close>: it lies in the block \<open>(X, Y)\<close>;
  \<open>move bw X Y j\<close>: the byte at its place in the block \<open>(X, Y)\<close>; \<open>blk bw j\<close>: the
  number of its block, counted row by row.
\<close>

definition in_block :: "nat \<Rightarrow> nat \<Rightarrow> nat \<Rightarrow> nat \<Rightarrow> bool" where
  "in_block bw X Y j \<longleftrightarrow> j div 32 mod bw = X \<and> j div 32 div bw div 8 = Y"

definition move :: "nat \<Rightarrow> nat \<Rightarrow> nat \<Rightarrow> nat \<Rightarrow> nat" where
  "move bw X Y j = ((Y * 8 + j div 32 div bw mod 8) * bw + X) * 32 + j mod 32"

definition blk :: "nat \<Rightarrow> nat \<Rightarrow> nat" where
  "blk bw j = j div 32 div bw div 8 * bw + j div 32 mod bw"

text \<open>The result after the first \<open>m\<close> block copies of encode and of decode.\<close>

definition enc_steps :: "nat \<Rightarrow> nat list \<Rightarrow> ImageData \<Rightarrow> nat \<Rightarrow> ImageData \<Rightarrow> ImageData" where
  "enc_steps bw seq img m r0 =
     fold (\<lambda>k r. copyBlock r (seq ! k mod bw) (seq ! k div bw) img (k mod bw) (k div bw)) [0..<m] r0"

definition dec_steps :: "nat \<Rightarrow> nat list \<Rightarrow> ImageData \<Rightarrow> nat \<Rightarrow> ImageData \<Rightarrow> ImageData" where
  "dec_steps bw seq img m r0 =
     fold (\<lambda>k r. copyBlock r (k mod bw) (k div bw) img (seq ! k mod bw) (seq ! k div bw)) [0..<m] r0"

text \<open>The image data \<^verbatim>\<open>createImageData\<close> gives for \<open>bw\<close> by \<open>bh\<close> blocks.\<close>

definition blank :: "nat \<Rightarrow> nat \<Rightarrow> ImageData" where
  "blank bw bh = \<lparr>width = bw * 8, height = bh * 8, data = replicate (bw * 8 * (bh * 8) * 4) 0\<rparr>"

text \<open>A sequence constructor for the examples: the indices in descending order.\<close>

definition example_sequence :: "nat \<Rightarrow> nat \<Rightarrow> nat list" where
  "example_sequence n seed = rev [0..<n]"

text \<open>
  The index in \<^verbatim>\<open>data\<close> of the \<open>m\<close>-th R, G or B value, and the number of the R, G or B
  value at the index \<open>j\<close> of \<^verbatim>\<open>data\<close>.
\<close>

definition rgb_key :: "nat \<Rightarrow> nat" where
  "rgb_key m = 4 * (m div 3) + m mod 3"

definition rgb_number :: "nat \<Rightarrow> nat" where
  "rgb_number j = 3 * (j div 4) + j mod 4"

text \<open>The alpha bytes of image data, pixel by pixel.\<close>

definition alpha_bytes :: "byte list \<Rightarrow> byte list" where
  "alpha_bytes d = map (\<lambda>p. d ! (4 * p + 3)) [0..<length d div 4]"

text \<open>Three bytes of \<open>src\<close> from \<open>b\<close> on, stored in \<open>dst\<close> from \<open>a\<close> on.\<close>

definition triple :: "byte list \<Rightarrow> nat \<Rightarrow> byte list \<Rightarrow> nat \<Rightarrow> byte list" where
  "triple dst a src b =
     ta_set (ta_set (ta_set dst a (ta_get src b)) (a + 1) (ta_get src (b + 1)))
       (a + 2) (ta_get src (b + 2))"

text \<open>
  The scratch buffer of encode after its first loop, the scratch buffer of decode after its
  first loop, and the data after the second loop of each, for data \<open>d\<close> of \<open>P\<close> pixels and the
  drawn indices \<open>seq\<close>.
\<close>

definition rgb_scattered :: "byte list \<Rightarrow> nat list \<Rightarrow> nat \<Rightarrow> byte list" where
  "rgb_scattered d seq P =
     fold (\<lambda>m b. ta_set b (seq ! m) (ta_get d (rgb_key m))) [0..<3 * P] (replicate (3 * P) 0)"

definition rgb_gathered :: "byte list \<Rightarrow> nat \<Rightarrow> byte list" where
  "rgb_gathered d P = fold (\<lambda>p b. triple b (3 * p) d (4 * p)) [0..<P] (replicate (3 * P) 0)"

definition rgb_encoded :: "byte list \<Rightarrow> nat list \<Rightarrow> nat \<Rightarrow> byte list" where
  "rgb_encoded d seq P = fold (\<lambda>p dd. triple dd (4 * p) (rgb_scattered d seq P) (3 * p)) [0..<P] d"

definition rgb_decoded :: "byte list \<Rightarrow> nat list \<Rightarrow> nat \<Rightarrow> byte list" where
  "rgb_decoded d seq P =
     fold (\<lambda>m dd. ta_set dd (rgb_key m) (ta_get (rgb_gathered d P) (seq ! m))) [0..<3 * P] d"

subsection \<open>\<^verbatim>\<open>RandomSequence\<close> (module \<^verbatim>\<open>./random\<close>)\<close>

text \<open>
  Modelled from the spec: the algorithm of \<^verbatim>\<open>RandomSequence\<close> (module \<^verbatim>\<open>./random\<close>) is not part
  of the sources. The spec (4.1, 9) leaves it open and names a seeded shuffle of Fisher and
  Yates over a pseudorandom generator as the example. The model is that shuffle, made step by
  step: the state is the list of the indices, the number of outputs produced so far and the
  state of the generator, which starts as the seed; \<open>prng\<close>, any function from a generator
  state to a number and the next state, is a parameter. \<^verbatim>\<open>next()\<close> swaps a chosen one of the
  indices not yet produced to the front of them and returns it; a call after the \<open>n\<close>-th
  fails (\<open>None\<close>).
\<close>

record 'r RandomSequence_state =
  rs_list :: "nat list"
  rs_produced :: nat
  rs_rng :: 'r

definition RandomSequence_new :: "nat \<Rightarrow> 'r \<Rightarrow> 'r RandomSequence_state" where
  "RandomSequence_new n seed = \<lparr>rs_list = [0..<n], rs_produced = 0, rs_rng = seed\<rparr>"

definition RandomSequence_next ::
  "('r \<Rightarrow> nat \<times> 'r) \<Rightarrow> 'r RandomSequence_state \<Rightarrow> (nat \<times> 'r RandomSequence_state) option" where
  "RandomSequence_next prng s =
     (if length (rs_list s) \<le> rs_produced s then None
      else
        (let (r, g) = prng (rs_rng s);
             i = rs_produced s;
             j = i + r mod (length (rs_list s) - i);
             xs = rs_list s
         in Some (xs ! j,
              \<lparr>rs_list = xs[i := xs ! j, j := xs ! i], rs_produced = Suc i, rs_rng = g\<rparr>)))"

text \<open>The outputs of \<open>k\<close> successive calls of \<^verbatim>\<open>next()\<close>; \<open>None\<close> when one of them fails.\<close>

fun RandomSequence_outputs ::
  "('r \<Rightarrow> nat \<times> 'r) \<Rightarrow> nat \<Rightarrow> 'r RandomSequence_state \<Rightarrow> nat list option" where
  "RandomSequence_outputs prng 0 s = Some []"
| "RandomSequence_outputs prng (Suc k) s =
     (case RandomSequence_next prng s of
        None \<Rightarrow> None
      | Some (v, s') \<Rightarrow> map_option ((#) v) (RandomSequence_outputs prng k s'))"

text \<open>The sequence object as the codecs take it: the outputs it has to give.\<close>

definition RandomSequence_model :: "('r \<Rightarrow> nat \<times> 'r) \<Rightarrow> nat \<Rightarrow> 'r \<Rightarrow> nat list" where
  "RandomSequence_model prng n seed =
     (case RandomSequence_outputs prng n (RandomSequence_new n seed) of
        None \<Rightarrow> []
      | Some xs \<Rightarrow> xs)"

text \<open>A generator for the examples.\<close>

definition example_prng :: "nat \<Rightarrow> nat \<times> nat" where
  "example_prng r = (r, (5 * r + 3) mod 16)"

subsection \<open>Auxiliary definitions for the pixel step of \<^verbatim>\<open>MosaicCodec\<close>\<close>

text \<open>
  The sum of the channel \<open>c\<close> over the block with the corner \<open>(x0, y0)\<close> and the sides
  \<open>bw\<close> and \<open>bh\<close>, in data of rows of \<open>W\<close> pixels, and the indices of that channel in
  the block.
\<close>

definition bsum :: "byte list \<Rightarrow> nat \<Rightarrow> nat \<Rightarrow> nat \<Rightarrow> nat \<Rightarrow> nat \<Rightarrow> nat \<Rightarrow> nat" where
  "bsum d W x0 y0 bw bh c =
     (\<Sum>y \<leftarrow> [0..<bh]. \<Sum>x \<leftarrow> [0..<bw]. unat (d ! pixel_index W (x0 + x) (y0 + y) c))"

definition region :: "nat \<Rightarrow> nat \<Rightarrow> nat \<Rightarrow> nat \<Rightarrow> nat \<Rightarrow> nat \<Rightarrow> nat set" where
  "region W x0 y0 bw bh c = {pixel_index W (x0 + x) (y0 + y) c | x y. x < bw \<and> y < bh}"

text \<open>The byte written for the channel \<open>c\<close> of the block.\<close>

definition bmean :: "byte list \<Rightarrow> nat \<Rightarrow> nat \<Rightarrow> nat \<Rightarrow> nat \<Rightarrow> nat \<Rightarrow> nat \<Rightarrow> byte" where
  "bmean d W x0 y0 bw bh c = of_nat (rounded_mean (bsum d W x0 y0 bw bh c) (bw * bh))"

text \<open>The indices of the bytes of the block, and the data after \<^verbatim>\<open>_mosaic\<close> on it.\<close>

definition bregion :: "nat \<Rightarrow> nat \<Rightarrow> nat \<Rightarrow> nat \<Rightarrow> nat \<Rightarrow> nat set" where
  "bregion W x0 y0 bw bh = (\<Union>c \<in> {0..<4}. region W x0 y0 bw bh c)"

definition mosaic_data :: "nat \<Rightarrow> nat \<Rightarrow> nat \<Rightarrow> nat \<Rightarrow> nat \<Rightarrow> byte list \<Rightarrow> byte list" where
  "mosaic_data W x0 y0 bw bh d = fold (mosaic_channel W x0 y0 bw bh) [0..<4] d"

text \<open>The blocks in the order of the loops, each as its row and column, and the step of one.\<close>

definition mosaic_blocks :: "nat \<Rightarrow> nat \<Rightarrow> (nat \<times> nat) list" where
  "mosaic_blocks W H =
     concat (map (\<lambda>R. map (Pair R) [0..<(W + 31) div 32]) [0..<(H + 31) div 32])"

definition mosaic_block :: "nat \<Rightarrow> nat \<Rightarrow> nat \<times> nat \<Rightarrow> byte list \<Rightarrow> byte list" where
  "mosaic_block W H b =
     (case b of (R, X) \<Rightarrow>
        mosaic_data W (32 * X) (32 * R) (min 32 (W - 32 * X)) (min 32 (H - 32 * R)))"

text \<open>A block of two by two pixels whose R values are 10, 20, 30 and 41.\<close>

definition example_block :: ImageData where
  "example_block = \<lparr>width = 2, height = 2,
     data = [10, 0, 0, 255, 20, 0, 0, 255, 30, 0, 0, 255, 41, 0, 0, 255]\<rparr>"

subsection \<open>Auxiliary definitions for the blocks of \<^verbatim>\<open>ShuffleBlockCodec\<close>\<close>

text \<open>
  The data after \<^verbatim>\<open>_copyBlock\<close>, for destination rows of \<open>Wd\<close> pixels and source data
  \<open>srcd\<close> in rows of \<open>Ws\<close> pixels.
\<close>

definition copy_rows ::
  "nat \<Rightarrow> nat \<Rightarrow> nat \<Rightarrow> byte list \<Rightarrow> nat \<Rightarrow> nat \<Rightarrow> nat \<Rightarrow> byte list \<Rightarrow> byte list" where
  "copy_rows Wd dX dY srcd Ws sX sY d =
     fold (\<lambda>y d. copyBlock_row srcd (pixel_index Ws (8 * sX) (8 * sY + y) 0)
            (pixel_index Wd (8 * dX) (8 * dY + y) 0) d) [0..<8] d"

section \<open>Proofs\<close>

subsection \<open>\<^verbatim>\<open>createCodec\<close>\<close>

lemma createCodec_known:
  "createCodec ''InvertCodec'' = Inr (CodecInstance InvertCodec)"
  "createCodec ''ShuffleRgbCodec'' = Inr (CodecInstance ShuffleRgbCodec)"
  "createCodec ''ShuffleBlockCodec'' = Inr (CodecInstance ShuffleBlockCodec)"
  "createCodec ''MosaicCodec'' = Inr (CodecInstance MosaicCodec)"
  by (simp_all add: createCodec_def codecClasses_get_def codecClasses_own_def truthy_def
      js_new_def)

lemma createCodec_default:
  assumes "codecName \<notin> fst ` set codecClasses_own"
    and "codecName \<notin> fst ` set Object_prototype"
  shows "createCodec codecName = Inr (CodecInstance ShuffleBlockCodec)"
proof -
  have "map_of codecClasses_own codecName = None"
    using assms(1) by (simp add: map_of_eq_None_iff)
  moreover have "map_of Object_prototype codecName = None"
    using assms(2) by (simp add: map_of_eq_None_iff)
  ultimately show ?thesis
    by (simp add: createCodec_def codecClasses_get_def truthy_def js_new_def)
qed

text \<open>
  C9. The claim: every selector that is not one of the four known names gives an instance
  of the block-shuffle codec. The selector \<^verbatim>\<open>constructor\<close> is not one of the four names, and
  \<^verbatim>\<open>codecClasses['constructor']\<close> is the inherited function \<^verbatim>\<open>Object\<close>, which is truthy: the
  default is not taken and \<^verbatim>\<open>new Object()\<close> is returned, a plain object and no codec.
\<close>

theorem createCodec_constructor:
  "createCodec ''constructor'' = Inr PlainObject \<and>
   createCodec ''constructor'' \<noteq> Inr (CodecInstance ShuffleBlockCodec) \<and>
   createCodec ''toString'' = Inl TypeError"
  by (simp add: createCodec_def codecClasses_get_def codecClasses_own_def Object_prototype_def
      truthy_def js_new_def)

subsection \<open>\<^verbatim>\<open>InvertCodec\<close>\<close>

lemma invert_value_Some: "invert_value (Some b) = b XOR 0xFF"
proof -
  have m32: "(0xFF :: 32 word) = mask 8"
    by (simp add: mask_eq_exp_minus_1)
  have m8: "(0xFF :: byte) = - 1"
    by simp
  have "ucast (NOT (ucast b :: 32 word) AND mask 8) = NOT b"
    by (rule bit_eqI) (auto simp add: bit_simps)
  then show ?thesis
    unfolding invert_value_def ToInt32_def m32 m8 by simp
qed

lemma invertColor_body_length [simp]: "length (invertColor_body i d) = length d"
  by (simp add: invertColor_body_def Let_def)

lemma invertColor_body_nth:
  "j < length d \<Longrightarrow>
   invertColor_body i d ! j =
     (if j = i \<or> j = i + 1 \<or> j = i + 2 then d ! j XOR 0xFF else d ! j)"
  by (auto simp add: invertColor_body_def Let_def ta_get_def nth_list_update invert_value_Some)

lemma invert_loop_nth:
  "length d = n \<Longrightarrow> i mod 4 = 0 \<Longrightarrow> j < n \<Longrightarrow>
   length (for_loop i n 4 invertColor_body d) = n \<and>
   for_loop i n 4 invertColor_body d ! j =
     (if i \<le> j \<and> j mod 4 \<noteq> 3 then d ! j XOR 0xFF else d ! j)"
proof (induction i n "4::nat" invertColor_body d rule: for_loop.induct)
  case (1 i n d)
  show ?case
  proof (cases "i < n")
    case False
    then show ?thesis using "1.prems" by (simp add: for_loop.simps)
  next
    case True
    let ?d' = "invertColor_body i d"
    have step: "for_loop i n 4 invertColor_body d = for_loop (i + 4) n 4 invertColor_body ?d'"
      using True by (subst for_loop.simps) simp
    have c: "i < n \<and> (0::nat) < 4" using True by simp
    have l: "length ?d' = n" using "1.prems"(1) by simp
    have m: "(i + 4) mod 4 = 0" using "1.prems"(2) by presburger
    note ih = "1.hyps"[OF c l m "1.prems"(3)]
    have ar: "i \<le> j \<and> j mod 4 \<noteq> 3 \<longleftrightarrow>
        (j = i \<or> j = i + 1 \<or> j = i + 2) \<or> (i + 4 \<le> j \<and> j mod 4 \<noteq> 3)"
      using "1.prems"(2) by presburger
    have jd: "j < length d" using "1.prems" by simp
    show ?thesis
    proof (cases "j = i \<or> j = i + 1 \<or> j = i + 2")
      case True
      then have "\<not> i + 4 \<le> j" by arith
      with True ih ar show ?thesis
        unfolding step by (simp add: invertColor_body_nth[OF jd])
    next
      case False
      with ih ar show ?thesis
        unfolding step by (simp add: invertColor_body_nth[OF jd])
    qed
  qed
qed

lemma invertColor_data:
  "for_loop 0 (length d) 4 invertColor_body d = map2 invert_spec [0..<length d] d"
proof (cases "d = []")
  case True
  then show ?thesis by (simp add: for_loop.simps)
next
  case False
  then have "0 < length d" by simp
  from invert_loop_nth[of d "length d" 0 0] this
  have len: "length (for_loop 0 (length d) 4 invertColor_body d) = length d" by simp
  show ?thesis
  proof (rule nth_equalityI)
    show "length (for_loop 0 (length d) 4 invertColor_body d) =
        length (map2 invert_spec [0..<length d] d)"
      using len by simp
  next
    fix j assume "j < length (for_loop 0 (length d) 4 invertColor_body d)"
    then have j: "j < length d" using len by simp
    then show "for_loop 0 (length d) 4 invertColor_body d ! j =
        map2 invert_spec [0..<length d] d ! j"
      using invert_loop_nth[of d "length d" 0 j] by (simp add: invert_spec_def)
  qed
qed

lemma invert_spec_twice: "invert_spec k (invert_spec k b) = b"
  by (simp add: invert_spec_def xor.assoc)

lemma map2_invert_twice:
  "map2 invert_spec [0..<length d] (map2 invert_spec [0..<length d] d) = d"
  by (rule nth_equalityI) (simp_all add: invert_spec_twice)

text \<open>
  C6. For every pixel buffer, \<^verbatim>\<open>InvertCodec\<close>'s encode and decode are the same operation
  \<^verbatim>\<open>_invertColor\<close>; it keeps the dimensions, replaces every R, G and B byte \<open>b\<close> by
  \<open>b XOR 0xFF\<close> and keeps every alpha byte (the bytes at the indices \<open>k\<close> with
  \<open>k mod 4 = 3\<close>); decode after encode gives back the buffer, byte for byte.
\<close>

theorem InvertCodec_roundtrip:
  "InvertCodec_doEncrypt img = InvertCodec_invertColor img \<and>
   InvertCodec_doDecrypt img = InvertCodec_invertColor img \<and>
   width (InvertCodec_invertColor img) = width img \<and>
   height (InvertCodec_invertColor img) = height img \<and>
   data (InvertCodec_invertColor img) =
     map2 (\<lambda>k b. if k mod 4 = 3 then b else b XOR 0xFF) [0..<length (data img)] (data img) \<and>
   InvertCodec_doDecrypt (InvertCodec_doEncrypt img) = img"
proof -
  have d: "data (InvertCodec_invertColor img) =
      map2 invert_spec [0..<length (data img)] (data img)"
    by (simp add: InvertCodec_invertColor_def invertColor_data)
  have s: "invert_spec = (\<lambda>k b. if k mod 4 = 3 then b else b XOR 0xFF)"
    by (rule ext)+ (simp add: invert_spec_def)
  have "length (data (InvertCodec_invertColor img)) = length (data img)"
    unfolding d by simp
  then have "data (InvertCodec_invertColor (InvertCodec_invertColor img)) =
      map2 invert_spec [0..<length (data img)]
        (map2 invert_spec [0..<length (data img)] (data img))"
    using invertColor_data[of "map2 invert_spec [0..<length (data img)] (data img)"]
    by (simp add: InvertCodec_invertColor_def invertColor_data)
  then have tw: "InvertCodec_invertColor (InvertCodec_invertColor img) = img"
    using map2_invert_twice[of "data img"]
    by (simp add: InvertCodec_invertColor_def)
  show ?thesis
    using d tw unfolding s
    by (simp add: InvertCodec_doEncrypt_def InvertCodec_doDecrypt_def
        InvertCodec_invertColor_def)
qed

subsection \<open>\<^verbatim>\<open>MosaicCodec\<close>, the container\<close>

lemma be32_4: "be32 [a, b, c, d] = ((unat a * 256 + unat b) * 256 + unat c) * 256 + unat d"
  by (simp add: be32_def)

lemma split256:
  assumes "x < 256" "y < 256" "a * 256 + x = b * 256 + y"
  shows "a = b \<and> x = (y::nat)"
proof -
  have "(a * 256 + x) div 256 = a" "(a * 256 + x) mod 256 = x"
    using assms(1) by simp_all
  moreover have "(b * 256 + y) div 256 = b" "(b * 256 + y) mod 256 = y"
    using assms(2) by simp_all
  ultimately show ?thesis
    using assms(3) by metis
qed

lemma be32_inj4:
  assumes "length xs = 4" "length ys = 4" "be32 xs = be32 ys"
  shows "xs = ys"
proof -
  obtain a b c d where xs: "xs = [a, b, c, d]"
    using assms(1) by (auto simp add: length_Suc_conv numeral_eq_Suc)
  obtain a' b' c' d' where ys: "ys = [a', b', c', d']"
    using assms(2) by (auto simp add: length_Suc_conv numeral_eq_Suc)
  have bd: "\<And>w :: byte. unat w < 256"
    using unsigned_less[where 'b=8 and 'a=nat] by simp
  from assms(3) have e: "((unat a * 256 + unat b) * 256 + unat c) * 256 + unat d =
     ((unat a' * 256 + unat b') * 256 + unat c') * 256 + unat d'"
    by (simp add: xs ys be32_4)
  from split256[OF bd bd e] have e1: "(unat a * 256 + unat b) * 256 + unat c =
     (unat a' * 256 + unat b') * 256 + unat c'" and d: "unat d = unat d'" by simp_all
  from split256[OF bd bd e1] have e2: "unat a * 256 + unat b = unat a' * 256 + unat b'"
    and c: "unat c = unat c'" by simp_all
  from split256[OF bd bd e2] have "unat a = unat a'" and "unat b = unat b'" by simp_all
  with c d show ?thesis by (simp add: xs ys word_unat_eq_iff)
qed

lemma be32_u32_bytes:
  assumes "n < 2 ^ 32"
  shows "be32 (u32_bytes n) = n"
proof -
  have dm: "\<And>m::nat. m div 256 * 256 + m mod 256 = m" by simp
  have n1: "n div 2 ^ 16 = n div 2 ^ 8 div 256"
    by (simp add: div_mult2_eq[symmetric])
  have n2: "n div 2 ^ 24 = n div 2 ^ 16 div 256"
    by (simp add: div_mult2_eq[symmetric])
  have n3: "n div 2 ^ 24 < 256" using assms by simp
  have "be32 (u32_bytes n) =
      ((n div 2 ^ 24 mod 256 * 256 + n div 2 ^ 16 mod 256) * 256 + n div 2 ^ 8 mod 256) * 256
        + n mod 256"
    by (simp add: u32_bytes_def be32_4 unat_of_nat)
  also have "n div 2 ^ 24 mod 256 = n div 2 ^ 24" using n3 by simp
  also have "n div 2 ^ 24 * 256 + n div 2 ^ 16 mod 256 = n div 2 ^ 16"
    unfolding n2 by (rule dm)
  also have "n div 2 ^ 16 * 256 + n div 2 ^ 8 mod 256 = n div 2 ^ 8"
    unfolding n1 by (rule dm)
  also have "n div 2 ^ 8 * 256 + n mod 256 = n"
    using dm[of n] by simp
  finally show ?thesis .
qed

lemma length_u32_bytes [simp]: "length (u32_bytes n) = 4"
  by (simp add: u32_bytes_def)

lemma be32_IEND_type: "be32 IEND_type = IEND"
  by (simp add: IEND_type_def be32_4 IEND_def)

lemma getUint32_at:
  "getUint32 (pre @ bs) (length pre) =
     (if 4 \<le> length bs then Inr (be32 (take 4 bs)) else Inl RangeError)"
  by (simp add: getUint32_def)

lemma getUint32_at4:
  "getUint32 (pre @ bs) (length pre + 4) =
     (if 8 \<le> length bs then Inr (be32 (take 4 (drop 4 bs))) else Inl RangeError)"
proof -
  have "drop (length pre + 4) (pre @ bs) = drop 4 bs"
    by (simp add: add.commute)
  then show ?thesis by (simp add: getUint32_def)
qed

lemma getUint32_beyond: "length buf \<le> off \<Longrightarrow> getUint32 buf off = Inl RangeError"
  by (simp add: getUint32_def)

lemma chunk_header:
  assumes "valid_chunk c"
  shows "take 4 (chunk_bytes c @ rest) = u32_bytes (length (chunk_data c))"
    and "take 4 (drop 4 (chunk_bytes c @ rest)) = chunk_type c"
    and "8 \<le> length (chunk_bytes c @ rest)"
    and "length (chunk_bytes c) = 8 + length (chunk_data c) + 4"
  using assms by (simp_all add: chunk_bytes_def valid_chunk_def)

lemma type_code:
  assumes "valid_chunk c"
  shows "be32 (chunk_type c) = IEND \<longleftrightarrow> chunk_type c = IEND_type"
proof
  assume "be32 (chunk_type c) = IEND"
  then have "be32 (chunk_type c) = be32 IEND_type" by (simp add: be32_IEND_type)
  moreover have "length (chunk_type c) = 4" "length IEND_type = 4"
    using assms by (simp_all add: valid_chunk_def IEND_type_def)
  ultimately show "chunk_type c = IEND_type" by (rule be32_inj4[rotated 2])
next
  assume "chunk_type c = IEND_type"
  then show "be32 (chunk_type c) = IEND" by (simp add: be32_IEND_type)
qed

lemma walk_step:
  assumes "valid_chunk c"
  shows "skip_first_image (pre @ chunk_bytes c @ rest) (length pre) =
     (if chunk_type c \<noteq> IEND_type
      then skip_first_image (pre @ chunk_bytes c @ rest) (length pre + length (chunk_bytes c))
      else Inr (length pre + length (chunk_bytes c)))"
proof -
  have l: "be32 (u32_bytes (length (chunk_data c))) = length (chunk_data c)"
    using assms by (simp add: be32_u32_bytes valid_chunk_def)
  show ?thesis
    apply (subst skip_first_image.simps)
    apply (simp only: getUint32_at getUint32_at4 chunk_header[OF assms] l)
    using type_code[OF assms] chunk_header(3)[OF assms, of rest]
    apply (simp add: chunk_header(4)[OF assms])
    done
qed

lemma walk_chunks:
  assumes "inner_chunks cs"
  shows "skip_first_image (pre @ concat (map chunk_bytes cs) @ rest) (length pre) =
     skip_first_image (pre @ concat (map chunk_bytes cs) @ rest)
       (length pre + length (concat (map chunk_bytes cs)))"
  using assms
proof (induction cs arbitrary: pre)
  case Nil
  then show ?case by simp
next
  case (Cons c cs)
  from Cons.prems have c: "valid_chunk c" "chunk_type c \<noteq> IEND_type" and cs: "inner_chunks cs"
    by (simp_all add: inner_chunks_def)
  have "skip_first_image (pre @ concat (map chunk_bytes (c # cs)) @ rest) (length pre) =
      skip_first_image (pre @ chunk_bytes c @ concat (map chunk_bytes cs) @ rest) (length pre)"
    by simp
  also have "\<dots> = skip_first_image (pre @ chunk_bytes c @ concat (map chunk_bytes cs) @ rest)
      (length pre + length (chunk_bytes c))"
    using walk_step[OF c(1), of pre "concat (map chunk_bytes cs) @ rest"] c(2) by simp
  also have "\<dots> = skip_first_image ((pre @ chunk_bytes c) @ concat (map chunk_bytes cs) @ rest)
      (length (pre @ chunk_bytes c))"
    by simp
  also have "\<dots> = skip_first_image ((pre @ chunk_bytes c) @ concat (map chunk_bytes cs) @ rest)
      (length (pre @ chunk_bytes c) + length (concat (map chunk_bytes cs)))"
    by (rule Cons.IH[OF cs])
  finally show ?case by (simp add: add.assoc)
qed

lemma walk_png:
  assumes "inner_chunks cs" "IEND_chunk iend"
  shows "skip_first_image (png_bytes cs iend @ rest) 8 = Inr (length (png_bytes cs iend))"
proof -
  let ?body = "concat (map chunk_bytes cs)"
  have i: "valid_chunk iend" "chunk_type iend = IEND_type"
    using assms(2) by (simp_all add: IEND_chunk_def)
  have l8: "length PNG_signature = 8" by (simp add: PNG_signature_def)
  have "skip_first_image (png_bytes cs iend @ rest) 8 =
      skip_first_image (PNG_signature @ ?body @ chunk_bytes iend @ rest) (length PNG_signature)"
    by (simp add: png_bytes_def l8)
  also have "\<dots> = skip_first_image (PNG_signature @ ?body @ chunk_bytes iend @ rest)
      (length PNG_signature + length ?body)"
    by (rule walk_chunks[OF assms(1)])
  also have "\<dots> = skip_first_image ((PNG_signature @ ?body) @ chunk_bytes iend @ rest)
      (length (PNG_signature @ ?body))"
    by simp
  also have "\<dots> = Inr (length (PNG_signature @ ?body) + length (chunk_bytes iend))"
    using walk_step[OF i(1), of "PNG_signature @ ?body" rest] i(2) by simp
  finally show ?thesis by (simp add: png_bytes_def)
qed

lemma walk_beyond: "length buf \<le> off \<Longrightarrow> skip_first_image buf off = Inl RangeError"
  by (subst skip_first_image.simps) (simp add: getUint32_beyond)

lemma walk_truncated:
  assumes "truncated tail"
  shows "skip_first_image (pre @ tail) (length pre) = Inl RangeError \<or>
     (\<exists>off. skip_first_image (pre @ tail) (length pre) = Inr off \<and> length (pre @ tail) \<le> off)"
proof (cases "length tail < 8")
  case True
  then show ?thesis
    by (subst skip_first_image.simps) (simp add: getUint32_at getUint32_at4)
next
  case False
  with assms have t: "length tail < 8 + be32 (take 4 tail) + 4"
    by (simp add: truncated_def)
  have nxt: "skip_first_image (pre @ tail) (length pre + (8 + be32 (take 4 tail) + 4)) =
      Inl RangeError"
    using t by (intro walk_beyond) simp
  have "skip_first_image (pre @ tail) (length pre) =
      (if be32 (take 4 (drop 4 tail)) \<noteq> IEND then Inl RangeError
       else Inr (length pre + (8 + be32 (take 4 tail) + 4)))"
    apply (subst skip_first_image.simps)
    apply (simp only: getUint32_at getUint32_at4 nxt)
    using False nxt apply (simp add: add.assoc)
    done
  then show ?thesis using t by simp
qed

lemma magic:
  "getUint32 (PNG_signature @ rest) 0 = Inr 0x89504E47"
  "getUint32 (PNG_signature @ rest) 4 = Inr 0x0D0A1A0A"
  by (simp_all add: getUint32_def PNG_signature_def be32_4)

lemma decrypt_after_signature:
  "decryptToUrl_try (PNG_signature @ rest) =
     bindE (skip_first_image (PNG_signature @ rest) 8) (\<lambda>offset.
       if offset \<ge> length (PNG_signature @ rest) then Inr EmptyString
       else Inr (ObjectURL (drop offset (PNG_signature @ rest))))"
  by (simp add: decryptToUrl_try_def magic bindE_def)


lemma signature_from_magic:
  assumes "getUint32 bs 0 = Inr 0x89504E47" "getUint32 bs 4 = Inr 0x0D0A1A0A"
  shows "take 8 bs = PNG_signature"
proof -
  have len: "8 \<le> length bs"
    using assms(2) by (cases "8 \<le> length bs") (simp_all add: getUint32_def)
  have "be32 (take 4 bs) = be32 (take 4 PNG_signature)"
    using assms(1) len by (simp add: getUint32_def PNG_signature_def be32_4)
  then have a: "take 4 bs = take 4 PNG_signature"
    using len by (intro be32_inj4) (simp_all add: PNG_signature_def)
  have "be32 (take 4 (drop 4 bs)) = be32 (drop 4 PNG_signature)"
    using assms(2) len by (simp add: getUint32_def PNG_signature_def be32_4)
  then have b: "take 4 (drop 4 bs) = drop 4 PNG_signature"
    using len by (intro be32_inj4) (simp_all add: PNG_signature_def)
  have "take 8 bs = take 4 bs @ take 4 (drop 4 bs)"
    using take_add[of 4 4 bs] by simp
  then show ?thesis
    unfolding a b by simp
qed

lemma decrypt_bad_signature:
  assumes "take 8 bs \<noteq> PNG_signature"
  shows "MosaicCodec_decryptToUrl bs = EmptyString"
proof (cases "getUint32 bs 0")
  case (Inl e)
  then show ?thesis by (simp add: MosaicCodec_decryptToUrl_def decryptToUrl_try_def bindE_def)
next
  case m0: (Inr magic0)
  show ?thesis
  proof (cases "magic0 = 0x89504E47")
    case False
    with m0 show ?thesis
      by (simp add: MosaicCodec_decryptToUrl_def decryptToUrl_try_def bindE_def)
  next
    case True
    show ?thesis
    proof (cases "getUint32 bs 4")
      case (Inl e)
      with m0 show ?thesis
        by (simp add: MosaicCodec_decryptToUrl_def decryptToUrl_try_def bindE_def)
    next
      case m1: (Inr magic1)
      have "magic1 \<noteq> 0x0D0A1A0A"
        using signature_from_magic[of bs] m0 m1 True assms by auto
      with m0 m1 show ?thesis
        by (simp add: MosaicCodec_decryptToUrl_def decryptToUrl_try_def bindE_def)
    qed
  qed
qed

lemma decrypt_truncated:
  assumes "inner_chunks cs" "truncated tail"
  shows "MosaicCodec_decryptToUrl (PNG_signature @ concat (map chunk_bytes cs) @ tail) = EmptyString"
proof -
  let ?buf = "PNG_signature @ concat (map chunk_bytes cs) @ tail"
  let ?pre = "PNG_signature @ concat (map chunk_bytes cs)"
  have l8: "length PNG_signature = 8" by (simp add: PNG_signature_def)
  have "skip_first_image ?buf 8 = skip_first_image ?buf (length PNG_signature)"
    by (simp add: l8)
  also have "\<dots> = skip_first_image ?buf (length PNG_signature + length (concat (map chunk_bytes cs)))"
    by (rule walk_chunks[OF assms(1)])
  also have "\<dots> = skip_first_image (?pre @ tail) (length ?pre)"
    by simp
  finally have w: "skip_first_image ?buf 8 = skip_first_image (?pre @ tail) (length ?pre)" .
  from walk_truncated[OF assms(2), of ?pre]
  have "skip_first_image ?buf 8 = Inl RangeError \<or>
     (\<exists>off. skip_first_image ?buf 8 = Inr off \<and> length ?buf \<le> off)"
    unfolding w by simp
  then show ?thesis
    unfolding MosaicCodec_decryptToUrl_def decrypt_after_signature
    by (auto simp add: bindE_def)
qed

lemma decrypt_no_payload:
  assumes "inner_chunks cs" "IEND_chunk iend"
  shows "MosaicCodec_decryptToUrl (png_bytes cs iend) = EmptyString"
proof -
  have p: "png_bytes cs iend = PNG_signature @ (concat (map chunk_bytes cs) @ chunk_bytes iend)"
    by (simp add: png_bytes_def)
  have "skip_first_image (png_bytes cs iend) 8 = Inr (length (png_bytes cs iend))"
    using walk_png[OF assms, of "[]"] by simp
  then show ?thesis
    unfolding MosaicCodec_decryptToUrl_def
    by (subst p, subst decrypt_after_signature, fold p) (simp add: bindE_def)
qed

lemma decrypt_payload:
  assumes "inner_chunks cs" "IEND_chunk iend" "payload \<noteq> []"
  shows "MosaicCodec_decryptToUrl (png_bytes cs iend @ payload) = ObjectURL payload"
proof -
  have p: "png_bytes cs iend @ payload =
      PNG_signature @ (concat (map chunk_bytes cs) @ chunk_bytes iend @ payload)"
    by (simp add: png_bytes_def)
  have "skip_first_image (png_bytes cs iend @ payload) 8 = Inr (length (png_bytes cs iend))"
    by (rule walk_png[OF assms(1,2)])
  then show ?thesis
    unfolding MosaicCodec_decryptToUrl_def
    using assms(3)
    by (subst p, subst decrypt_after_signature, fold p) (simp add: bindE_def)
qed

text \<open>
  C8. \<^verbatim>\<open>decryptToUrl\<close> returns a value for every byte sequence: whatever the \<^verbatim>\<open>try\<close> block
  throws is caught and becomes the empty string. The three failures of the container each
  give the empty string: bytes that do not start with the PNG signature; a signature and
  chunks without \<^verbatim>\<open>IEND\<close> followed by bytes that do not hold a whole chunk (the walk runs
  past the end); a signature and chunks ending in an \<^verbatim>\<open>IEND\<close> chunk with nothing after it.
\<close>

theorem MosaicCodec_decrypt_failures:
  "(take 8 bs \<noteq> PNG_signature \<longrightarrow> MosaicCodec_decryptToUrl bs = EmptyString) \<and>
   (inner_chunks cs \<and> truncated tail \<longrightarrow>
      MosaicCodec_decryptToUrl (PNG_signature @ concat (map chunk_bytes cs) @ tail) = EmptyString) \<and>
   (inner_chunks cs \<and> IEND_chunk iend \<longrightarrow>
      MosaicCodec_decryptToUrl (png_bytes cs iend) = EmptyString) \<and>
   (decryptToUrl_try bs = Inl e \<longrightarrow> MosaicCodec_decryptToUrl bs = EmptyString)"
  using decrypt_bad_signature decrypt_truncated decrypt_no_payload
  by (simp add: MosaicCodec_decryptToUrl_def)

lemma example_chunks:
  "inner_chunks [example_IHDR]" "IEND_chunk example_IEND"
  by (simp_all add: inner_chunks_def IEND_chunk_def valid_chunk_def example_IHDR_def
      example_IEND_def IEND_type_def)

theorem MosaicCodec_decrypt_failures_witness:
  "MosaicCodec_decryptToUrl [0x47, 0x49, 0x46, 0x38, 0x39, 0x61] = EmptyString \<and>
   MosaicCodec_decryptToUrl
     (PNG_signature @ concat (map chunk_bytes [example_IHDR]) @ [0, 0, 0, 0, 0x49, 0x45]) =
     EmptyString \<and>
   MosaicCodec_decryptToUrl (png_bytes [example_IHDR] example_IEND) = EmptyString \<and>
   decryptToUrl_try [0x89, 0x50, 0x4E, 0x47] = Inl RangeError \<and>
   MosaicCodec_decryptToUrl [0x89, 0x50, 0x4E, 0x47] = EmptyString"
proof -
  have t: "decryptToUrl_try [0x89, 0x50, 0x4E, 0x47] = Inl RangeError"
    by (simp add: decryptToUrl_try_def getUint32_def be32_4 bindE_def)
  have s: "take 8 [0x47, 0x49, 0x46, 0x38, 0x39, 0x61 :: byte] \<noteq> PNG_signature"
    by (simp add: PNG_signature_def)
  have tr: "truncated [0, 0, 0, 0, 0x49, 0x45]"
    by (simp add: truncated_def)
  show ?thesis
    using MosaicCodec_decrypt_failures[of "[0x47, 0x49, 0x46, 0x38, 0x39, 0x61]" "[example_IHDR]"
        "[0, 0, 0, 0, 0x49, 0x45]" example_IEND RangeError]
      MosaicCodec_decrypt_failures[of "[0x89, 0x50, 0x4E, 0x47]" "[]" "[]" example_IEND RangeError]
      t s tr example_chunks
    by simp
qed

text \<open>
  C4. \<^verbatim>\<open>encryptToBlob\<close> gives the bytes of the rendered PNG of the mosaicked image followed
  by the bytes of the original file, and \<^verbatim>\<open>decryptToUrl\<close> of these bytes gives the URL of a
  blob with exactly the bytes of the original file. The canvas renders a PNG file: the
  signature and chunks of which the last, and only the last, is \<^verbatim>\<open>IEND\<close>. The original file
  is one the image loader has decoded, so it is not empty.
\<close>

theorem MosaicCodec_container_roundtrip:
  assumes "toPNG (MosaicCodec_doEncrypt imgData) = png_bytes cs iend"
    and "inner_chunks cs" and "IEND_chunk iend"
    and "fileBuffer \<noteq> []"
  shows "MosaicCodec_encryptToBlob toPNG imgData fileBuffer =
           toPNG (MosaicCodec_doEncrypt imgData) @ fileBuffer \<and>
         MosaicCodec_decryptToUrl (MosaicCodec_encryptToBlob toPNG imgData fileBuffer) =
           ObjectURL fileBuffer"
  using assms decrypt_payload[of cs iend fileBuffer]
  by (simp add: MosaicCodec_encryptToBlob_def)

theorem MosaicCodec_container_roundtrip_witness:
  "example_toPNG (MosaicCodec_doEncrypt \<lparr>width = 1, height = 1, data = [1, 2, 3, 255]\<rparr>) =
     png_bytes [example_IHDR] example_IEND \<and>
   inner_chunks [example_IHDR] \<and> IEND_chunk example_IEND \<and>
   [0xFF, 0xD8, 0xFF, 0xD9 :: byte] \<noteq> [] \<and>
   MosaicCodec_decryptToUrl (MosaicCodec_encryptToBlob example_toPNG
      \<lparr>width = 1, height = 1, data = [1, 2, 3, 255]\<rparr> [0xFF, 0xD8, 0xFF, 0xD9]) =
     ObjectURL [0xFF, 0xD8, 0xFF, 0xD9]"
proof -
  have p: "example_toPNG (MosaicCodec_doEncrypt \<lparr>width = 1, height = 1, data = [1, 2, 3, 255]\<rparr>) =
     png_bytes [example_IHDR] example_IEND"
    by (simp add: example_toPNG_def)
  have n: "[0xFF, 0xD8, 0xFF, 0xD9 :: byte] \<noteq> []" by simp
  have r: "MosaicCodec_decryptToUrl (MosaicCodec_encryptToBlob example_toPNG
      \<lparr>width = 1, height = 1, data = [1, 2, 3, 255]\<rparr> [0xFF, 0xD8, 0xFF, 0xD9]) =
     ObjectURL [0xFF, 0xD8, 0xFF, 0xD9]"
    using MosaicCodec_container_roundtrip[of example_toPNG
        "\<lparr>width = 1, height = 1, data = [1, 2, 3, 255]\<rparr>" "[example_IHDR]" example_IEND
        "[0xFF, 0xD8, 0xFF, 0xD9]", OF p example_chunks n]
    by (rule conjunct2)
  show ?thesis
    using p example_chunks n r by blast
qed


subsection \<open>Loops as folds, and \<^verbatim>\<open>ShuffleBlockCodec\<close>\<close>

lemma foldE_append: "foldE f (xs @ ys) s = bindE (foldE f xs s) (foldE f ys)"
  by (induction xs arbitrary: s) (auto simp add: bindE_def split: sum.splits)

lemma loop_bound: "0 < step \<Longrightarrow> step * a < n \<longleftrightarrow> a < (n + step - 1) div (step::nat)"
proof -
  assume s: "0 < step"
  have "a < (n + step - 1) div step \<longleftrightarrow> Suc a \<le> (n + step - 1) div step" by auto
  also have "\<dots> \<longleftrightarrow> Suc a * step \<le> n + step - 1"
    using s by (simp add: less_eq_div_iff_mult_less_eq)
  also have "\<dots> \<longleftrightarrow> step * a < n"
    using s by (cases step) (auto simp add: algebra_simps)
  finally show ?thesis by simp
qed

lemma ceil_div_mult: "0 < step \<Longrightarrow> (step * m + step - 1) div step = (m::nat)"
proof -
  assume s: "0 < step"
  then obtain t where t: "step = Suc t" by (cases step) auto
  have "step * m + step - 1 = t + m * step" by (simp add: t)
  moreover have "(t + m * step) div step = m"
    using div_mult_self3[of step t m] s by (simp add: t del: mult_Suc_right mult_Suc)
  ultimately show ?thesis by simp
qed

lemma for_loop_fold_gen:
  assumes "0 < step"
  shows "for_loop (step * a) n step body s =
     fold (\<lambda>p. body (step * p)) [a..<(n + step - 1) div step] s"
proof (induction "(n + step - 1) div step - a" arbitrary: a s)
  case 0
  then have "\<not> a < (n + step - 1) div step" by simp
  then have "\<not> step * a < n" using loop_bound[OF assms] by simp
  then show ?case using 0 by (subst for_loop.simps) simp
next
  case (Suc k)
  then have lt: "a < (n + step - 1) div step" by simp
  then have c: "step * a < n" using loop_bound[OF assms] by simp
  have k: "k = (n + step - 1) div step - Suc a" using Suc(2) by simp
  have "for_loop (step * a) n step body s = for_loop (step * Suc a) n step body (body (step * a) s)"
    using c assms by (subst for_loop.simps) (simp add: add.commute)
  also have "\<dots> = fold (\<lambda>p. body (step * p)) [Suc a..<(n + step - 1) div step] (body (step * a) s)"
    by (rule Suc(1)[OF k])
  finally show ?case using lt by (simp add: upt_conv_Cons)
qed

lemma for_loop_fold:
  "for_loop 0 n 1 body s = fold body [0..<n] s"
  "for_loop 0 n (Suc 0) body s = fold body [0..<n] s"
  using for_loop_fold_gen[of 1 0 n body s] by simp_all

lemma for_loop_fold_fun:
  "for_loop 0 n 1 body = fold body [0..<n]"
  "for_loop 0 n (Suc 0) body = fold body [0..<n]"
  by (rule ext, simp add: for_loop_fold)+

lemma for_loop_fold_step:
  "0 < step \<Longrightarrow> for_loop 0 (step * m) step body s = fold (\<lambda>p. body (step * p)) [0..<m] s"
  using for_loop_fold_gen[of step 0 "step * m" body s]
  by (simp only: ceil_div_mult mult_0_right)

lemma for_loopE_foldE_gen:
  assumes "0 < step"
  shows "for_loopE (step * a) n step body s =
     foldE (\<lambda>p. body (step * p)) [a..<(n + step - 1) div step] s"
proof (induction "(n + step - 1) div step - a" arbitrary: a s)
  case 0
  then have "\<not> a < (n + step - 1) div step" by simp
  then have "\<not> step * a < n" using loop_bound[OF assms] by simp
  then show ?case using 0 by (subst for_loopE.simps) simp
next
  case (Suc k)
  then have lt: "a < (n + step - 1) div step" by simp
  then have c: "step * a < n" using loop_bound[OF assms] by simp
  have k: "k = (n + step - 1) div step - Suc a" using Suc(2) by simp
  have "for_loopE (step * a) n step body s =
      (case body (step * a) s of Inl e \<Rightarrow> Inl e
       | Inr s' \<Rightarrow> for_loopE (step * Suc a) n step body s')"
    using c assms by (subst for_loopE.simps) (simp add: add.commute cong: sum.case_cong)
  also have "\<dots> = (case body (step * a) s of Inl e \<Rightarrow> Inl e
       | Inr s' \<Rightarrow> foldE (\<lambda>p. body (step * p)) [Suc a..<(n + step - 1) div step] s')"
    using Suc(1)[OF k] by (simp cong: sum.case_cong)
  finally show ?case using lt by (simp add: upt_conv_Cons cong: sum.case_cong)
qed

lemma for_loopE_foldE:
  "for_loopE 0 n 1 body s = foldE body [0..<n] s"
  "for_loopE 0 n (Suc 0) body s = foldE body [0..<n] s"
  using for_loopE_foldE_gen[of 1 0 n body s] by simp_all

lemma for_loopE_foldE_fun:
  "for_loopE 0 n 1 body = foldE body [0..<n]"
  "for_loopE 0 n (Suc 0) body = foldE body [0..<n]"
  by (rule ext, simp add: for_loopE_foldE)+

lemma for_loopE_foldE_step:
  "0 < step \<Longrightarrow> for_loopE 0 (step * m) step body s = foldE (\<lambda>p. body (step * p)) [0..<m] s"
  using for_loopE_foldE_gen[of step 0 "step * m" body s]
  by (simp only: ceil_div_mult mult_0_right)

lemma draw_Cons: "draw g k (s, i # seq) = Inr (g k i s, seq)"
  by (simp add: draw_def seq_next_def)

lemma foldE_draw:
  "length ks \<le> length seq \<Longrightarrow>
   foldE (draw g) ks (s, seq) =
     Inr (fold (\<lambda>(k, i). g k i) (zip ks seq) s, drop (length ks) seq)"
proof (induction ks arbitrary: s seq)
  case Nil
  then show ?case by simp
next
  case (Cons k ks)
  then obtain i seq' where seq: "seq = i # seq'" by (cases seq) auto
  with Cons.prems have "length ks \<le> length seq'" by simp
  from Cons.IH[OF this] show ?case by (simp add: seq draw_Cons)
qed

lemma foldE_concat:
  "foldE (\<lambda>y. foldE f (xs y)) ys s = foldE f (concat (map xs ys)) s"
proof (induction ys arbitrary: s)
  case Nil
  then show ?case by simp
next
  case (Cons y ys)
  show ?case
    by (simp add: foldE_append bindE_def Cons.IH split: sum.splits)
qed

lemma fold_zip_nth:
  "length xs = length ys \<Longrightarrow>
   fold f (zip xs ys) s = fold (\<lambda>k. f (xs ! k, ys ! k)) [0..<length xs] s"
proof -
  assume l: "length xs = length ys"
  have "zip xs ys = map (\<lambda>k. (xs ! k, ys ! k)) [0..<length xs]"
    using l by (intro nth_equalityI) simp_all
  then show ?thesis by (simp add: fold_map comp_def)
qed

lemma fold_update_nth:
  "j < length d \<Longrightarrow>
   fold (\<lambda>i d. d[a + i := f i]) [0..<n] d ! j =
     (if a \<le> j \<and> j < a + n then f (j - a) else d ! j)"
proof (induction n)
  case 0
  then show ?case by auto
next
  case (Suc n)
  have l: "length (fold (\<lambda>i d. d[a + i := f i]) [0..<n] d) = length d"
    by (induction n) simp_all
  show ?case
  proof (cases "j = a + n")
    case True
    then show ?thesis using Suc.prems l by simp
  next
    case False
    then show ?thesis using Suc l by (auto simp add: nth_list_update)
  qed
qed

lemma fold_update_length [simp]:
  "length (fold (\<lambda>i d. d[a + i := f i]) [0..<n] d) = length d"
  by (induction n) simp_all

lemma copyBlock_row_eq:
  "copyBlock_row src iS iD dst =
     fold (\<lambda>i d. d[iD + i := ToUint8Clamp (ta_get src (iS + i))]) [0..<32] dst"
  by (simp add: copyBlock_row_def for_loop_fold ta_set_def)

lemma copyBlock_row_length [simp]: "length (copyBlock_row src iS iD dst) = length dst"
  by (simp add: copyBlock_row_eq)

lemma copyBlock_row_nth:
  assumes "j < length dst" "iS + 32 \<le> length src"
  shows "copyBlock_row src iS iD dst ! j =
     (if iD \<le> j \<and> j < iD + 32 then src ! (iS + (j - iD)) else dst ! j)"
proof -
  have "iD \<le> j \<and> j < iD + 32 \<Longrightarrow> ToUint8Clamp (ta_get src (iS + (j - iD))) = src ! (iS + (j - iD))"
  proof -
    assume "iD \<le> j \<and> j < iD + 32"
    then have "iS + (j - iD) < length src" using assms(2) by linarith
    then show ?thesis by (simp add: ta_get_def ToUint8Clamp_def)
  qed
  then show ?thesis
    unfolding copyBlock_row_eq using fold_update_nth[OF assms(1)] by simp
qed

lemma segment_iff:
  "(a * 32 \<le> j \<and> j < a * 32 + 32) \<longleftrightarrow> j div 32 = (a::nat)"
proof
  assume "a * 32 \<le> j \<and> j < a * 32 + 32"
  then have "a \<le> j div 32" "j div 32 < Suc a"
    by (simp_all add: less_eq_div_iff_mult_less_eq div_less_iff_less_mult)
  then show "j div 32 = a" by simp
next
  assume "j div 32 = a"
  then have "a * 32 + j mod 32 = j" by auto
  moreover have "j mod 32 < 32" by simp
  ultimately show "a * 32 \<le> j \<and> j < a * 32 + 32" by linarith
qed

lemma idx_bound: "r < R \<Longrightarrow> x < (b::nat) \<Longrightarrow> r * b + x < R * b"
proof -
  assume r: "r < R" and x: "x < b"
  have "r * b + x < Suc r * b" using x by simp
  also have "Suc r * b \<le> R * b" using r by (intro mult_le_mono1) simp
  finally show ?thesis .
qed

lemma q_decomp: "x < b \<Longrightarrow> q = r * b + x \<longleftrightarrow> q mod b = x \<and> q div b = (r::nat)"
  by auto

lemma rows_state:
  "fold (\<lambda>y (d, iD, iS). (copyBlock_row src iS iD d, iD + wd, iS + ws)) [0..<n] (d0, iD0, iS0) =
     (fold (\<lambda>y d. copyBlock_row src (iS0 + y * ws) (iD0 + y * wd) d) [0..<n] d0,
      iD0 + n * wd, iS0 + n * ws)"
  by (induction n) (simp_all add: algebra_simps)

lemma rows_length [simp]:
  "length (fold (\<lambda>y d. copyBlock_row src (f y) (g y) d) [0..<n] d0) = length d0"
  by (induction n) simp_all

lemma rows_nth:
  assumes bw: "0 < bw" and dX: "dX < bw" and sX: "sX < bw" and sY: "sY < bh"
    and ls: "length src = 32 * bw * (8 * bh)"
    and j: "j < length d0" and n: "n \<le> 8"
  shows "fold (\<lambda>y d. copyBlock_row src (((sY * 8 + y) * bw + sX) * 32)
            (((dY * 8 + y) * bw + dX) * 32) d) [0..<n] d0 ! j =
     (if in_block bw dX dY j \<and> j div 32 div bw mod 8 < n then src ! move bw sX sY j else d0 ! j)"
  using n
proof (induction n)
  case 0
  then show ?case by simp
next
  case (Suc n)
  let ?prev = "fold (\<lambda>y d. copyBlock_row src (((sY * 8 + y) * bw + sX) * 32)
            (((dY * 8 + y) * bw + dX) * 32) d) [0..<n] d0"
  have ih: "?prev ! j =
     (if in_block bw dX dY j \<and> j div 32 div bw mod 8 < n then src ! move bw sX sY j else d0 ! j)"
    using Suc by simp
  have n8: "n < 8" using Suc.prems by simp
  have "sY * 8 + n < 8 * bh" using sY n8 by simp
  then have "(sY * 8 + n) * bw + sX < 8 * bh * bw" using sX by (intro idx_bound)
  then have "((sY * 8 + n) * bw + sX) * 32 + 32 \<le> 8 * bh * bw * 32" by simp
  then have sr: "((sY * 8 + n) * bw + sX) * 32 + 32 \<le> length src"
    by (simp add: ls mult.commute mult.left_commute)
  have jl: "j < length ?prev" using j by simp
  have seg: "(((dY * 8 + n) * bw + dX) * 32 \<le> j \<and> j < ((dY * 8 + n) * bw + dX) * 32 + 32) \<longleftrightarrow>
      in_block bw dX dY j \<and> j div 32 div bw mod 8 = n"
  proof -
    have "(((dY * 8 + n) * bw + dX) * 32 \<le> j \<and> j < ((dY * 8 + n) * bw + dX) * 32 + 32) \<longleftrightarrow>
        j div 32 = (dY * 8 + n) * bw + dX"
      by (rule segment_iff)
    also have "\<dots> \<longleftrightarrow> j div 32 mod bw = dX \<and> j div 32 div bw = dY * 8 + n"
      by (rule q_decomp[OF dX])
    also have "j div 32 div bw = dY * 8 + n \<longleftrightarrow>
        j div 32 div bw mod 8 = n \<and> j div 32 div bw div 8 = dY"
      using q_decomp[OF n8, of "j div 32 div bw" dY] by simp
    finally show ?thesis by (auto simp add: in_block_def)
  qed
  have val: "in_block bw dX dY j \<and> j div 32 div bw mod 8 = n \<Longrightarrow>
      ((sY * 8 + n) * bw + sX) * 32 + (j - ((dY * 8 + n) * bw + dX) * 32) = move bw sX sY j"
  proof -
    assume a: "in_block bw dX dY j \<and> j div 32 div bw mod 8 = n"
    then have "j div 32 = (dY * 8 + n) * bw + dX" using seg segment_iff by blast
    then have "j - ((dY * 8 + n) * bw + dX) * 32 = j mod 32"
      using minus_div_mult_eq_mod[of j 32] by simp
    then show ?thesis using a by (simp add: move_def)
  qed
  have "fold (\<lambda>y d. copyBlock_row src (((sY * 8 + y) * bw + sX) * 32)
            (((dY * 8 + y) * bw + dX) * 32) d) [0..<Suc n] d0 ! j =
      copyBlock_row src (((sY * 8 + n) * bw + sX) * 32) (((dY * 8 + n) * bw + dX) * 32) ?prev ! j"
    by simp
  also have "\<dots> = (if in_block bw dX dY j \<and> j div 32 div bw mod 8 = n
       then src ! move bw sX sY j else ?prev ! j)"
    using copyBlock_row_nth[OF jl sr] seg val by auto
  finally show ?case
    using ih by (auto simp add: less_Suc_eq)
qed

lemma copyBlock_rows:
  "data (copyBlock dst dX dY src sX sY) =
     fold (\<lambda>y d. copyBlock_row (data src)
            ((sY * width src + sX) * 8 * 4 + y * (width src * 4))
            ((dY * width dst + dX) * 8 * 4 + y * (width dst * 4)) d) [0..<8] (data dst)"
  by (simp add: copyBlock_def Let_def for_loop_fold rows_state)

lemma copyBlock_frame [simp]:
  "width (copyBlock dst dX dY src sX sY) = width dst"
  "height (copyBlock dst dX dY src sX sY) = height dst"
  "length (data (copyBlock dst dX dY src sX sY)) = length (data dst)"
  by (simp_all add: copyBlock_rows) (simp_all add: copyBlock_def Let_def)

lemma copyBlock_nth:
  assumes "width dst = bw * 8" "width src = bw * 8"
    and "0 < bw" "dX < bw" "sX < bw" "sY < bh"
    and "length (data src) = 32 * bw * (8 * bh)"
    and "j < length (data dst)"
  shows "data (copyBlock dst dX dY src sX sY) ! j =
     (if in_block bw dX dY j then data src ! move bw sX sY j else data dst ! j)"
proof -
  have e: "\<And>X Y y. (Y * (bw * 8) + X) * 8 * 4 + y * (bw * 8 * 4) = ((Y * 8 + y) * bw + X) * 32"
    by (simp add: algebra_simps)
  have "data (copyBlock dst dX dY src sX sY) =
     fold (\<lambda>y d. copyBlock_row (data src) (((sY * 8 + y) * bw + sX) * 32)
            (((dY * 8 + y) * bw + dX) * 32) d) [0..<8] (data dst)"
    unfolding copyBlock_rows assms(1,2) e ..
  then show ?thesis
    using rows_nth[OF assms(3-8), of 8 dY] by simp
qed

lemma foldE_map: "foldE f (map h xs) s = foldE (\<lambda>x. f (h x)) xs s"
  by (induction xs arbitrary: s) (simp_all split: sum.splits)

lemma foldE_map_fun: "foldE f (map h xs) = foldE (\<lambda>x. f (h x)) xs"
  by (rule ext) (rule foldE_map)

lemma doCommon_body_draw:
  "doCommon_body handleCopy bw blockY =
     (\<lambda>blockX. draw (\<lambda>(Y, X) index result. handleCopy result X Y (index mod bw) (index div bw))
       (blockY, blockX))"
  by (rule ext)+ (simp add: doCommon_body_def draw_def Let_def split: prod.splits sum.splits)

lemma blocks_eq:
  "concat (map (\<lambda>Y. map (Pair Y) [0..<bw]) [0..<bh]) =
     map (\<lambda>k. (k div bw, k mod bw)) [0..<bh * bw]"
proof (induction bh)
  case 0
  then show ?case by simp
next
  case (Suc bh)
  have "[0..<Suc bh * bw] = [0..<bh * bw] @ map (\<lambda>x. x + bh * bw) [0..<bw]"
    using upt_add_eq_append[of 0 "bh * bw" bw] by (simp add: map_add_upt add.commute)
  moreover have "map (\<lambda>k. (k div bw, k mod bw)) (map (\<lambda>x. x + bh * bw) [0..<bw]) =
      map (Pair bh) [0..<bw]"
    by (simp add: comp_def)
  ultimately show ?case using Suc by simp
qed

lemma doCommon_loops:
  assumes "length seq = bh * bw"
  shows "for_loopE 0 bh 1 (\<lambda>blockY. for_loopE 0 bw 1 (doCommon_body handleCopy bw blockY))
           (result, seq) =
     Inr (fold (\<lambda>k r. handleCopy r (k mod bw) (k div bw) (seq ! k mod bw) (seq ! k div bw))
            [0..<bh * bw] result, [])"
proof -
  let ?g = "\<lambda>(Y, X) index result. handleCopy result X Y (index mod bw) (index div bw)"
  let ?ks = "map (\<lambda>k. (k div bw, k mod bw)) [0..<bh * bw]"
  have "for_loopE 0 bh 1 (\<lambda>blockY. for_loopE 0 bw 1 (doCommon_body handleCopy bw blockY))
           (result, seq) =
      foldE (\<lambda>Y. foldE (draw ?g) (map (Pair Y) [0..<bw])) [0..<bh] (result, seq)"
    by (simp add: for_loopE_foldE_fun doCommon_body_draw foldE_map_fun)
  also have "\<dots> = foldE (draw ?g) ?ks (result, seq)"
    by (simp only: foldE_concat blocks_eq)
  also have "\<dots> = Inr (fold (\<lambda>(k, i). ?g k i) (zip ?ks seq) result, drop (length ?ks) seq)"
    using assms by (intro foldE_draw) simp
  also have "fold (\<lambda>(k, i). ?g k i) (zip ?ks seq) result =
      fold (\<lambda>k. (\<lambda>(k, i). ?g k i) (?ks ! k, seq ! k)) [0..<length ?ks] result"
    using assms by (intro fold_zip_nth) simp
  also have "\<dots> = fold (\<lambda>k r. handleCopy r (k mod bw) (k div bw) (seq ! k mod bw) (seq ! k div bw))
            [0..<bh * bw] result"
    by (intro fold_cong) simp_all
  finally show ?thesis using assms by simp
qed

lemma in_block_blk:
  assumes "0 < bw"
  shows "in_block bw (b mod bw) (b div bw) j \<longleftrightarrow> blk bw j = b"
proof
  assume "in_block bw (b mod bw) (b div bw) j"
  then show "blk bw j = b" by (simp add: in_block_def blk_def)
next
  assume b: "blk bw j = b"
  have x: "j div 32 mod bw < bw" using assms by simp
  from b have "b = j div 32 div bw div 8 * bw + j div 32 mod bw" by (simp add: blk_def)
  then have "b mod bw = j div 32 mod bw \<and> b div bw = j div 32 div bw div 8"
    using q_decomp[OF x] by blast
  then show "in_block bw (b mod bw) (b div bw) j" by (simp add: in_block_def)
qed

lemma blk_less:
  assumes "0 < bw" "j < 32 * bw * (8 * bh)"
  shows "blk bw j < bh * bw"
proof -
  have "j < (8 * bh * bw) * 32" using assms(2) by (simp add: mult.commute mult.left_commute)
  then have "j div 32 < 8 * bh * bw" by (simp add: div_less_iff_less_mult)
  then have "j div 32 < (bh * 8) * bw" by (simp add: mult.commute mult.left_commute)
  then have "j div 32 div bw < bh * 8" using assms(1) by (simp add: div_less_iff_less_mult)
  then have "j div 32 div bw div 8 < bh" by (simp add: div_less_iff_less_mult)
  moreover have "j div 32 mod bw < bw" using assms(1) by simp
  ultimately show ?thesis unfolding blk_def by (rule idx_bound)
qed

lemma move_less:
  assumes "X < bw" "Y < bh"
  shows "move bw X Y j < 32 * bw * (8 * bh)"
proof -
  have "j div 32 div bw mod 8 < 8" by simp
  with assms(2) have "Y * 8 + j div 32 div bw mod 8 < bh * 8"
    by (rule idx_bound)
  then have "(Y * 8 + j div 32 div bw mod 8) * bw + X < bh * 8 * bw"
    using assms(1) by (rule idx_bound)
  moreover have "j mod 32 < 32" by simp
  ultimately have "((Y * 8 + j div 32 div bw mod 8) * bw + X) * 32 + j mod 32 < bh * 8 * bw * 32"
    by (rule idx_bound)
  then show ?thesis by (simp add: move_def mult.commute mult.left_commute)
qed

lemma div_rb: "x < b \<Longrightarrow> (r * b + x) div b = (r::nat)"
  by simp

lemma mod_rb: "x < b \<Longrightarrow> (r * b + x) mod b = (x::nat)"
  by simp

lemma move_div32: "move bw X Y j div 32 = (Y * 8 + j div 32 div bw mod 8) * bw + X"
  unfolding move_def by (rule div_rb) simp

lemma move_mod32: "move bw X Y j mod 32 = j mod 32"
  unfolding move_def by (rule mod_rb) simp

lemma move_row:
  assumes "X < bw"
  shows "move bw X Y j div 32 div bw = Y * 8 + j div 32 div bw mod 8"
    and "move bw X Y j div 32 mod bw = X"
  unfolding move_div32 using assms by (rule div_rb, rule mod_rb)

lemma move_row8:
  assumes "X < bw"
  shows "move bw X Y j div 32 div bw mod 8 = j div 32 div bw mod 8"
    and "move bw X Y j div 32 div bw div 8 = Y"
  unfolding move_row(1)[OF assms] by (rule mod_rb, simp, rule div_rb, simp)

lemma in_block_move: "X < bw \<Longrightarrow> in_block bw X Y (move bw X Y j)"
  unfolding in_block_def using move_row(2)[of X bw Y j] move_row8(2)[of X bw Y j] by simp

lemma move_move:
  assumes "X' < bw"
  shows "move bw X Y (move bw X' Y' j) = move bw X Y j"
  unfolding move_def[of bw X Y] move_row8(1)[OF assms] move_mod32 ..

lemma move_id:
  assumes "in_block bw X Y j"
  shows "move bw X Y j = j"
proof -
  have "Y * 8 + j div 32 div bw mod 8 = j div 32 div bw"
    using assms by (auto simp add: in_block_def)
  moreover have "j div 32 div bw * bw + X = j div 32"
    using assms by (auto simp add: in_block_def)
  ultimately show ?thesis by (simp add: move_def)
qed

lemma enc_steps_frame [simp]:
  "width (enc_steps bw seq img m r0) = width r0"
  "height (enc_steps bw seq img m r0) = height r0"
  "length (data (enc_steps bw seq img m r0)) = length (data r0)"
  by (induction m) (simp_all add: enc_steps_def)

lemma dec_steps_frame [simp]:
  "width (dec_steps bw seq img m r0) = width r0"
  "height (dec_steps bw seq img m r0) = height r0"
  "length (data (dec_steps bw seq img m r0)) = length (data r0)"
  by (induction m) (simp_all add: dec_steps_def)

lemma div_less_blocks: "0 < bw \<Longrightarrow> k < bh * bw \<Longrightarrow> k div bw < (bh::nat)"
  by (simp add: div_less_iff_less_mult)

lemma enc_steps_nth:
  assumes bw: "0 < bw"
    and dist: "distinct seq" and len: "length seq = bh * bw"
    and wi: "width img = bw * 8" and li: "length (data img) = 32 * bw * (8 * bh)"
    and wr: "width r0 = bw * 8"
    and j: "j < length (data r0)"
    and m: "m \<le> bh * bw" and k: "k < m" and kj: "seq ! k = blk bw j"
  shows "data (enc_steps bw seq img m r0) ! j = data img ! move bw (k mod bw) (k div bw) j"
  using m k
proof (induction m)
  case 0
  then show ?case by simp
next
  case (Suc m)
  let ?r = "enc_steps bw seq img m r0"
  have mlt: "m < bh * bw" using Suc.prems by simp
  have step: "enc_steps bw seq img (Suc m) r0 =
      copyBlock ?r (seq ! m mod bw) (seq ! m div bw) img (m mod bw) (m div bw)"
    by (simp add: enc_steps_def)
  have nth: "data (enc_steps bw seq img (Suc m) r0) ! j =
     (if in_block bw (seq ! m mod bw) (seq ! m div bw) j
      then data img ! move bw (m mod bw) (m div bw) j else data ?r ! j)"
    unfolding step
    by (rule copyBlock_nth[where bh = bh])
      (use bw wi wr li j mlt in \<open>simp_all add: div_less_blocks\<close>)
  show ?case
  proof (cases "k = m")
    case True
    then have "in_block bw (seq ! m mod bw) (seq ! m div bw) j"
      using kj in_block_blk[OF bw] by simp
    then show ?thesis using nth True by simp
  next
    case False
    then have km: "k < m" using Suc.prems by simp
    have "seq ! m \<noteq> seq ! k"
      using dist km mlt len by (simp add: nth_eq_iff_index_eq)
    then have "\<not> in_block bw (seq ! m mod bw) (seq ! m div bw) j"
      using kj in_block_blk[OF bw, of "seq ! m" j] by simp
    then show ?thesis using nth Suc.IH km mlt by simp
  qed
qed

lemma dec_steps_nth:
  assumes bw: "0 < bw"
    and rng: "\<forall>i < bh * bw. seq ! i < bh * bw"
    and wi: "width img = bw * 8" and li: "length (data img) = 32 * bw * (8 * bh)"
    and wr: "width r0 = bw * 8"
    and j: "j < length (data r0)"
    and m: "m \<le> bh * bw" and k: "k < m" and kj: "blk bw j = k"
  shows "data (dec_steps bw seq img m r0) ! j =
     data img ! move bw (seq ! k mod bw) (seq ! k div bw) j"
  using m k
proof (induction m)
  case 0
  then show ?case by simp
next
  case (Suc m)
  let ?r = "dec_steps bw seq img m r0"
  have mlt: "m < bh * bw" using Suc.prems by simp
  then have sm: "seq ! m < bh * bw" using rng by simp
  have step: "dec_steps bw seq img (Suc m) r0 =
      copyBlock ?r (m mod bw) (m div bw) img (seq ! m mod bw) (seq ! m div bw)"
    by (simp add: dec_steps_def)
  have nth: "data (dec_steps bw seq img (Suc m) r0) ! j =
     (if in_block bw (m mod bw) (m div bw) j
      then data img ! move bw (seq ! m mod bw) (seq ! m div bw) j else data ?r ! j)"
    unfolding step
    by (rule copyBlock_nth[where bh = bh])
      (use bw wi wr li j sm in \<open>simp_all add: div_less_blocks\<close>)
  show ?case
  proof (cases "k = m")
    case True
    then have "in_block bw (m mod bw) (m div bw) j"
      using kj in_block_blk[OF bw] by simp
    then show ?thesis using nth True by simp
  next
    case False
    then have km: "k < m" using Suc.prems by simp
    then have "\<not> in_block bw (m mod bw) (m div bw) j"
      using kj in_block_blk[OF bw, of m j] by simp
    then show ?thesis using nth Suc.IH km mlt by simp
  qed
qed

lemma permutation_sequence_facts:
  assumes "permutation_sequence RandomSequence n seed"
  shows "length (RandomSequence n seed) = n"
    and "distinct (RandomSequence n seed)"
    and "set (RandomSequence n seed) = {0..<n}"
proof -
  have m: "mset (RandomSequence n seed) = mset [0..<n]"
    using assms by (simp add: permutation_sequence_def)
  show "length (RandomSequence n seed) = n"
    using mset_eq_length[OF m] by simp
  show "distinct (RandomSequence n seed)"
    using mset_eq_imp_distinct_iff[OF m] by simp
  show "set (RandomSequence n seed) = {0..<n}"
    using mset_eq_setD[OF m] by simp
qed

lemma doCommon_result:
  assumes "8 \<le> width img" "8 \<le> height img"
    and "length (RandomSequence (width img div 8 * (height img div 8)) seed) =
      width img div 8 * (height img div 8)"
  shows "ShuffleBlockCodec_doCommon RandomSequence seed img handleCopy =
     Inr (fold (\<lambda>k r. handleCopy r (k mod (width img div 8)) (k div (width img div 8))
            (RandomSequence (width img div 8 * (height img div 8)) seed ! k mod (width img div 8))
            (RandomSequence (width img div 8 * (height img div 8)) seed ! k div (width img div 8)))
          [0..<height img div 8 * (width img div 8)]
          (blank (width img div 8) (height img div 8)))"
proof -
  let ?bw = "width img div 8" and ?bh = "height img div 8"
  have pos: "0 < ?bw" "0 < ?bh" using assms(1,2) by (simp_all add: div_greater_zero_iff)
  have c: "createImageData (?bw * 8) (?bh * 8) = Inr (blank ?bw ?bh)"
    using pos by (simp add: createImageData_def blank_def)
  have l: "length (RandomSequence (?bw * ?bh) seed) = ?bh * ?bw"
    using assms(3) by (simp add: mult.commute)
  show ?thesis
    unfolding ShuffleBlockCodec_doCommon_def Let_def c
    using doCommon_loops[OF l, of handleCopy "blank ?bw ?bh"]
    by simp
qed

lemma doEncrypt_result:
  assumes "8 \<le> width img" "8 \<le> height img"
    and "permutation_sequence RandomSequence (width img div 8 * (height img div 8)) seed"
  shows "ShuffleBlockCodec_doEncrypt RandomSequence seed img =
     Inr (enc_steps (width img div 8)
        (RandomSequence (width img div 8 * (height img div 8)) seed) img
        (height img div 8 * (width img div 8)) (blank (width img div 8) (height img div 8)))"
  unfolding ShuffleBlockCodec_doEncrypt_def enc_steps_def
  using assms(1,2) permutation_sequence_facts(1)[OF assms(3)]
  by (rule doCommon_result)

lemma doDecrypt_result:
  assumes "8 \<le> width img" "8 \<le> height img"
    and "permutation_sequence RandomSequence (width img div 8 * (height img div 8)) seed"
  shows "ShuffleBlockCodec_doDecrypt RandomSequence seed img =
     Inr (dec_steps (width img div 8)
        (RandomSequence (width img div 8 * (height img div 8)) seed) img
        (height img div 8 * (width img div 8)) (blank (width img div 8) (height img div 8)))"
  unfolding ShuffleBlockCodec_doDecrypt_def dec_steps_def
  using assms(1,2) permutation_sequence_facts(1)[OF assms(3)]
  by (rule doCommon_result)

lemma blank_frame [simp]:
  "width (blank bw bh) = bw * 8" "height (blank bw bh) = bh * 8"
  "length (data (blank bw bh)) = bw * 8 * (bh * 8) * 4"
  by (simp_all add: blank_def)

text \<open>
  C2. For every well-formed pixel buffer whose width and height are multiples of 8, and a
  sequence constructor that gives a permutation sequence for \<open>(width div 8) * (height div 8)\<close>
  and the seed, encode of \<^verbatim>\<open>ShuffleBlockCodec\<close> succeeds and decode of its result, with the
  same seed, gives back the buffer: the same width, height and bytes.
\<close>

theorem ShuffleBlockCodec_roundtrip:
  assumes wf: "well_formed img" and w8: "8 dvd width img" and h8: "8 dvd height img"
    and perm: "permutation_sequence RandomSequence (width img div 8 * (height img div 8)) seed"
  shows "bindE (ShuffleBlockCodec_doEncrypt RandomSequence seed img)
           (ShuffleBlockCodec_doDecrypt RandomSequence seed) = Inr img"
proof -
  let ?bw = "width img div 8" and ?bh = "height img div 8"
  let ?seq = "RandomSequence (?bw * ?bh) seed"
  let ?n = "?bh * ?bw"
  let ?enc = "enc_steps ?bw ?seq img ?n (blank ?bw ?bh)"
  let ?dec = "dec_steps ?bw ?seq ?enc ?n (blank ?bw ?bh)"
  have wi: "width img = ?bw * 8" and hi: "height img = ?bh * 8"
    using w8 h8 by simp_all
  have pos: "0 < width img" "0 < height img" using wf by (simp_all add: well_formed_def)
  have ge: "8 \<le> width img" "8 \<le> height img"
    using pos w8 h8 by (auto elim: dvdE)
  have bw: "0 < ?bw" using ge by (simp add: div_greater_zero_iff)
  have li: "length (data img) = 32 * ?bw * (8 * ?bh)"
  proof -
    have "length (data img) = (?bw * 8) * (?bh * 8) * 4"
      using wf wi hi by (simp add: well_formed_def)
    then show ?thesis by simp
  qed
  have lb: "length (data (blank ?bw ?bh)) = 32 * ?bw * (8 * ?bh)" by simp
  note pf = permutation_sequence_facts[OF perm]
  have len: "length ?seq = ?n" using pf(1) by (simp add: mult.commute)
  have rng: "\<forall>i < ?n. ?seq ! i < ?n"
  proof (intro allI impI)
    fix i assume "i < ?n"
    then have "?seq ! i \<in> set ?seq" using len by simp
    then show "?seq ! i < ?n" using pf(3) by (simp add: mult.commute)
  qed
  have enc: "ShuffleBlockCodec_doEncrypt RandomSequence seed img = Inr ?enc"
    by (rule doEncrypt_result[OF ge perm])
  have we: "width ?enc = ?bw * 8" "height ?enc = ?bh * 8" by simp_all
  have we8: "width ?enc div 8 = ?bw" "height ?enc div 8 = ?bh" by simp_all
  have perm': "permutation_sequence RandomSequence (width ?enc div 8 * (height ?enc div 8)) seed"
    unfolding we8 by (rule perm)
  have ge': "8 \<le> width ?enc" "8 \<le> height ?enc" using ge wi hi by simp_all
  have dec: "ShuffleBlockCodec_doDecrypt RandomSequence seed ?enc = Inr ?dec"
    using doDecrypt_result[OF ge' perm'] unfolding we8 .
  have data: "data ?dec = data img"
  proof (rule nth_equalityI)
    show "length (data ?dec) = length (data img)" using li by simp
  next
    fix j assume "j < length (data ?dec)"
    then have j: "j < 32 * ?bw * (8 * ?bh)" by simp
    let ?k = "blk ?bw j"
    have k: "?k < ?n" using blk_less[OF bw j] .
    let ?X = "?seq ! ?k mod ?bw" and ?Y = "?seq ! ?k div ?bw"
    let ?j' = "move ?bw ?X ?Y j"
    have X: "?X < ?bw" using bw by simp
    have Y: "?Y < ?bh" using rng k bw by (simp add: div_less_blocks)
    have j': "?j' < 32 * ?bw * (8 * ?bh)" by (rule move_less[OF X Y])
    have bj': "blk ?bw ?j' = ?seq ! ?k"
      using in_block_move[OF X, of ?Y j] in_block_blk[OF bw, of "?seq ! ?k" ?j'] by simp
    have "data ?dec ! j = data ?enc ! ?j'"
      by (rule dec_steps_nth[where bh = ?bh, OF bw rng _ _ _ _ _ k])
        (use j li in simp_all)
    also have "\<dots> = data img ! move ?bw (?k mod ?bw) (?k div ?bw) ?j'"
      by (rule enc_steps_nth[where bh = ?bh, OF bw pf(2) len wi li _ _ _ k])
        (use j' bj' in simp_all)
    also have "move ?bw (?k mod ?bw) (?k div ?bw) ?j' = move ?bw (?k mod ?bw) (?k div ?bw) j"
      by (rule move_move[OF X])
    also have "\<dots> = j"
      using in_block_blk[OF bw, of ?k j] by (intro move_id) simp
    finally show "data ?dec ! j = data img ! j" .
  qed
  have "?dec = img"
    using data wi hi by (cases img) simp
  then show ?thesis
    by (simp add: enc dec bindE_def)
qed

lemma example_sequence_permutation: "permutation_sequence example_sequence n seed"
  by (simp add: permutation_sequence_def example_sequence_def)

theorem ShuffleBlockCodec_roundtrip_witness:
  "well_formed \<lparr>width = 16, height = 8, data = map of_nat [0..<512]\<rparr> \<and>
   (8::nat) dvd 16 \<and> (8::nat) dvd 8 \<and>
   permutation_sequence example_sequence (16 div 8 * (8 div 8)) (0::nat) \<and>
   bindE (ShuffleBlockCodec_doEncrypt example_sequence (0::nat)
            \<lparr>width = 16, height = 8, data = map of_nat [0..<512]\<rparr>)
     (ShuffleBlockCodec_doDecrypt example_sequence 0) =
     Inr \<lparr>width = 16, height = 8, data = map of_nat [0..<512]\<rparr>"
proof -
  let ?img = "\<lparr>width = 16, height = 8, data = map of_nat [0..<512]\<rparr> :: ImageData"
  have wf: "well_formed ?img" by (simp add: well_formed_def)
  have d: "8 dvd width ?img" "8 dvd height ?img" by simp_all
  have p: "permutation_sequence example_sequence (width ?img div 8 * (height ?img div 8)) (0::nat)"
    by (rule example_sequence_permutation)
  show ?thesis
    using ShuffleBlockCodec_roundtrip[OF wf d p] wf example_sequence_permutation
    by simp
qed

subsection \<open>\<^verbatim>\<open>ShuffleRgbCodec\<close>\<close>

lemma rgb_keys_eq:
  "concat (map (\<lambda>p. [4 * p, 4 * p + 1, 4 * p + 2]) [0..<P]) = map rgb_key [0..<3 * P]"
proof (induction P)
  case 0
  then show ?case by simp
next
  case (Suc P)
  have "3 * Suc P = Suc (Suc (Suc (3 * P)))" by simp
  then have "[0..<3 * Suc P] = [0..<3 * P] @ [3 * P, 3 * P + 1, 3 * P + 2]"
    by (simp only: upt_Suc) simp
  moreover have kc: "\<And>c. c < 3 \<Longrightarrow> rgb_key (3 * P + c) = 4 * P + c"
  proof -
    fix c :: nat assume c: "c < 3"
    have "(P * 3 + c) div 3 = P" "(P * 3 + c) mod 3 = c"
      using c by (rule div_rb, rule mod_rb)
    then show "rgb_key (3 * P + c) = 4 * P + c"
      by (simp add: rgb_key_def mult.commute)
  qed
  have "rgb_key (3 * P) = 4 * P" "rgb_key (3 * P + 1) = 4 * P + 1"
      "rgb_key (3 * P + 2) = 4 * P + 2"
    using kc[of 0] kc[of 1] kc[of 2] by simp_all
  ultimately show ?case using Suc by simp
qed

lemma rgb_key_number:
  "j mod 4 \<noteq> 3 \<Longrightarrow> rgb_key (rgb_number j) = j"
  "rgb_number (rgb_key m) = m"
  "rgb_key m mod 4 \<noteq> 3"
  "rgb_key m mod 4 = m mod 3"
  "rgb_key m div 4 = m div 3"
proof -
  have a: "rgb_key m mod 4 = m mod 3" unfolding rgb_key_def
    using mod_rb[of "m mod 3" 4 "m div 3"] by (simp add: mult.commute)
  have b: "rgb_key m div 4 = m div 3" unfolding rgb_key_def
    using div_rb[of "m mod 3" 4 "m div 3"] by (simp add: mult.commute)
  show "rgb_key m mod 4 = m mod 3" by (rule a)
  show "rgb_key m div 4 = m div 3" by (rule b)
  show "rgb_key m mod 4 \<noteq> 3" unfolding a
    using mod_less_divisor[of 3 m] by linarith
  show "rgb_number (rgb_key m) = m" unfolding rgb_number_def a b by simp
  assume j: "j mod 4 \<noteq> 3"
  then have j3: "j mod 4 < 3" using mod_less_divisor[of 4 j] by linarith
  have "rgb_number j div 3 = j div 4" unfolding rgb_number_def
    using div_rb[OF j3, of "j div 4"] by (simp add: mult.commute)
  moreover have "rgb_number j mod 3 = j mod 4" unfolding rgb_number_def
    using mod_rb[OF j3, of "j div 4"] by (simp add: mult.commute)
  ultimately show "rgb_key (rgb_number j) = j" by (simp add: rgb_key_def)
qed

lemma rgb_key_less: "m < 3 * P \<Longrightarrow> rgb_key m < 4 * P"
proof -
  assume "m < 3 * P"
  then have "m div 3 < P" by (simp add: div_less_iff_less_mult mult.commute)
  moreover have "m mod 3 < 4" using mod_less_divisor[of 3 m] by linarith
  ultimately have "m div 3 * 4 + m mod 3 < P * 4" by (rule idx_bound)
  then show ?thesis by (simp add: rgb_key_def mult.commute)
qed

lemma rgb_number_less: "j < 4 * P \<Longrightarrow> j mod 4 \<noteq> 3 \<Longrightarrow> rgb_number j < 3 * P"
proof -
  assume "j < 4 * P" and "j mod 4 \<noteq> 3"
  then have "j div 4 < P" and "j mod 4 < 3"
    using mod_less_divisor[of 4 j] by (simp_all add: div_less_iff_less_mult mult.commute)
  then have "j div 4 * 3 + j mod 4 < P * 3" by (rule idx_bound)
  then show ?thesis by (simp add: rgb_number_def mult.commute)
qed

lemma rgb_scatter_body_draw:
  "rgb_scatter_body d i =
     foldE (draw (\<lambda>k idx buffer. ta_set buffer idx (ta_get d k))) [i, i + 1, i + 2]"
proof (rule ext)
  fix st :: "byte list \<times> nat list"
  have p: "\<And>k. scatter_put (ta_get d k) = draw (\<lambda>k idx buffer. ta_set buffer idx (ta_get d k)) k"
    by (rule ext) (simp add: scatter_put_def draw_def split: prod.splits sum.splits)
  show "rgb_scatter_body d i st =
     foldE (draw (\<lambda>k idx buffer. ta_set buffer idx (ta_get d k))) [i, i + 1, i + 2] st"
    by (simp add: rgb_scatter_body_def p bindE_def split: sum.splits)
qed

lemma rgb_take_back_body_draw:
  "rgb_take_back_body buffer i =
     foldE (draw (\<lambda>k idx d. ta_set d k (ta_get buffer idx))) [i, i + 1, i + 2]"
proof (rule ext)
  fix st :: "byte list \<times> nat list"
  have p: "\<And>k. take_back buffer k = draw (\<lambda>k idx d. ta_set d k (ta_get buffer idx)) k"
    by (rule ext) (simp add: take_back_def draw_def split: prod.splits sum.splits)
  show "rgb_take_back_body buffer i st =
     foldE (draw (\<lambda>k idx d. ta_set d k (ta_get buffer idx))) [i, i + 1, i + 2] st"
    by (simp add: rgb_take_back_body_def p bindE_def split: sum.splits)
qed

lemma draw_loop:
  assumes "length seq = 3 * P"
  shows "for_loopE 0 (4 * P) 4 (\<lambda>i. foldE (draw g) [i, i + 1, i + 2]) (s, seq) =
     Inr (fold (\<lambda>m. g (rgb_key m) (seq ! m)) [0..<3 * P] s, [])"
proof -
  have "for_loopE 0 (4 * P) 4 (\<lambda>i. foldE (draw g) [i, i + 1, i + 2]) (s, seq) =
      foldE (\<lambda>p. foldE (draw g) [4 * p, 4 * p + 1, 4 * p + 2]) [0..<P] (s, seq)"
    by (simp add: for_loopE_foldE_step)
  also have "\<dots> = foldE (draw g) (map rgb_key [0..<3 * P]) (s, seq)"
    by (simp only: foldE_concat rgb_keys_eq)
  also have "\<dots> = Inr (fold (\<lambda>(k, i). g k i) (zip (map rgb_key [0..<3 * P]) seq) s,
      drop (length (map rgb_key [0..<3 * P])) seq)"
    using assms by (intro foldE_draw) simp
  also have "fold (\<lambda>(k, i). g k i) (zip (map rgb_key [0..<3 * P]) seq) s =
      fold (\<lambda>m. (\<lambda>(k, i). g k i) (map rgb_key [0..<3 * P] ! m, seq ! m))
        [0..<length (map rgb_key [0..<3 * P])] s"
    using assms by (intro fold_zip_nth) simp
  also have "\<dots> = fold (\<lambda>m. g (rgb_key m) (seq ! m)) [0..<3 * P] s"
    by (intro fold_cong) simp_all
  finally show ?thesis using assms by (simp del: foldE.simps)
qed

lemma triple_length [simp]: "length (triple dst a src b) = length dst"
  by (simp add: triple_def ta_set_def)

lemma triple_nth:
  "j < length dst \<Longrightarrow>
   triple dst a src b ! j =
     (if a \<le> j \<and> j < a + 3 then ToUint8Clamp (ta_get src (b + (j - a))) else dst ! j)"
proof -
  assume j: "j < length dst"
  consider "j = a" | "j = a + 1" | "j = a + 2" | "\<not> (a \<le> j \<and> j < a + 3)" by linarith
  then show ?thesis
  proof cases
    case 1 then show ?thesis using j by (simp add: triple_def ta_set_def)
  next
    case 2 then show ?thesis using j by (simp add: triple_def ta_set_def)
  next
    case 3 then show ?thesis using j by (simp add: triple_def ta_set_def)
  next
    case 4
    then have "j \<noteq> a" "j \<noteq> a + 1" "j \<noteq> a + 2" by linarith+
    then have "triple dst a src b ! j = dst ! j"
      using j by (simp add: triple_def ta_set_def)
    then show ?thesis using 4 by presburger
  qed
qed

lemma triple_fold_length [simp]:
  "length (fold (\<lambda>p dd. triple dd (f p) src (g p)) [0..<Q] dst) = length dst"
  by (induction Q) simp_all

lemma triple_fold_nth:
  assumes "3 \<le> A" and "j < length dst"
  shows "fold (\<lambda>p dd. triple dd (A * p) src (B * p)) [0..<Q] dst ! j =
     (if j div A < Q \<and> j mod A < 3
      then ToUint8Clamp (ta_get src (B * (j div A) + j mod A)) else dst ! j)"
proof (induction Q)
  case 0
  then show ?case by simp
next
  case (Suc Q)
  let ?prev = "fold (\<lambda>p dd. triple dd (A * p) src (B * p)) [0..<Q] dst"
  have A0: "0 < A" using assms(1) by simp
  have seg: "(A * Q \<le> j \<and> j < A * Q + 3) \<longleftrightarrow> (j div A = Q \<and> j mod A < 3)"
  proof
    assume a: "A * Q \<le> j \<and> j < A * Q + 3"
    then have "j - A * Q < A" using assms(1) by linarith
    moreover have "j = Q * A + (j - A * Q)" using a by (simp add: mult.commute)
    ultimately have "j div A = Q" "j mod A = j - A * Q"
      using div_rb[of "j - A * Q" A Q] mod_rb[of "j - A * Q" A Q] by simp_all
    then show "j div A = Q \<and> j mod A < 3" using a by linarith
  next
    assume a: "j div A = Q \<and> j mod A < 3"
    have "j = A * (j div A) + j mod A" by simp
    then have "j = A * Q + j mod A" using a by simp
    then show "A * Q \<le> j \<and> j < A * Q + 3" using a by linarith
  qed
  have off: "j div A = Q \<Longrightarrow> j - A * Q = j mod A"
    using minus_mult_div_eq_mod[of j A] by simp
  have "fold (\<lambda>p dd. triple dd (A * p) src (B * p)) [0..<Suc Q] dst ! j =
      triple ?prev (A * Q) src (B * Q) ! j"
    by simp
  also have "\<dots> = (if A * Q \<le> j \<and> j < A * Q + 3
      then ToUint8Clamp (ta_get src (B * Q + (j - A * Q))) else ?prev ! j)"
    using assms(2) by (intro triple_nth) simp
  also have "\<dots> = (if j div A = Q \<and> j mod A < 3
      then ToUint8Clamp (ta_get src (B * (j div A) + j mod A)) else ?prev ! j)"
    using seg off by auto
  finally show ?case using Suc.IH by (auto simp add: less_Suc_eq)
qed

lemma copy_back_state:
  "fold (\<lambda>p. rgb_copy_back_body buffer (4 * p)) [0..<Q] (d, 0) =
     (fold (\<lambda>p dd. triple dd (4 * p) buffer (3 * p)) [0..<Q] d, 3 * Q)"
  by (induction Q) (simp_all add: rgb_copy_back_body_def triple_def Let_def)

lemma gather_state:
  "fold (\<lambda>p. rgb_gather_body d (4 * p)) [0..<Q] (buffer, 0) =
     (fold (\<lambda>p b. triple b (3 * p) d (4 * p)) [0..<Q] buffer, 3 * Q)"
  by (induction Q) (simp_all add: rgb_gather_body_def triple_def Let_def)

lemma ta_set_length [simp]: "length (ta_set d i v) = length d"
  by (simp add: ta_set_def)

lemma ta_set_nth:
  "j < length d \<Longrightarrow> ta_set d i v ! j = (if j = i then ToUint8Clamp v else d ! j)"
  by (simp add: ta_set_def)

lemma scatter_fold_length [simp]:
  "length (fold (\<lambda>m b. ta_set b (f m) (v m)) [0..<M] buf) = length buf"
  by (induction M) simp_all

lemma scatter_fold_nth:
  assumes "distinct seq" and "M \<le> length seq" and "\<forall>m < M. seq ! m < length buf"
    and "m < M"
  shows "fold (\<lambda>m b. ta_set b (seq ! m) (v m)) [0..<M] buf ! (seq ! m) = ToUint8Clamp (v m)"
  using assms(2-4)
proof (induction M)
  case 0
  then show ?case by simp
next
  case (Suc M)
  let ?prev = "fold (\<lambda>m b. ta_set b (seq ! m) (v m)) [0..<M] buf"
  show ?case
  proof (cases "m = M")
    case True
    then show ?thesis using Suc.prems by (simp add: ta_set_nth)
  next
    case False
    then have mM: "m < M" using Suc.prems by simp
    then have "seq ! M \<noteq> seq ! m"
      using assms(1) Suc.prems by (simp add: nth_eq_iff_index_eq)
    then show ?thesis using Suc mM by (simp add: ta_set_nth)
  qed
qed

lemma take_back_fold_nth:
  assumes "j < length e"
  shows "fold (\<lambda>m dd. ta_set dd (rgb_key m) (v m)) [0..<M] e ! j =
     (if j mod 4 \<noteq> 3 \<and> rgb_number j < M then ToUint8Clamp (v (rgb_number j)) else e ! j)"
proof (induction M)
  case 0
  then show ?case by simp
next
  case (Suc M)
  let ?prev = "fold (\<lambda>m dd. ta_set dd (rgb_key m) (v m)) [0..<M] e"
  have l: "length ?prev = length e" by simp
  have k: "j = rgb_key M \<longleftrightarrow> j mod 4 \<noteq> 3 \<and> rgb_number j = M"
    using rgb_key_number(1)[of j] rgb_key_number(2,3)[of M] by auto
  have "fold (\<lambda>m dd. ta_set dd (rgb_key m) (v m)) [0..<Suc M] e ! j =
      (if j = rgb_key M then ToUint8Clamp (v M) else ?prev ! j)"
    using assms l by (simp add: ta_set_nth)
  then show ?case using Suc.IH k by (auto simp add: less_Suc_eq)
qed

lemma rgb_lengths [simp]:
  "length (rgb_scattered d seq P) = 3 * P"
  "length (rgb_gathered d P) = 3 * P"
  "length (rgb_encoded d seq P) = length d"
  "length (rgb_decoded d seq P) = length d"
  by (simp_all add: rgb_scattered_def rgb_gathered_def rgb_encoded_def rgb_decoded_def)

lemma doEncrypt_rgb:
  assumes "length (data img) = 4 * P" and "length (RandomSequence (3 * P) seed) = 3 * P"
  shows "ShuffleRgbCodec_doEncrypt RandomSequence seed img =
     Inr (img\<lparr>data := rgb_encoded (data img) (RandomSequence (3 * P) seed) P\<rparr>)"
proof -
  have n: "length (data img) div 4 * 3 = 3 * P" using assms(1) by simp
  have l1: "for_loopE 0 (4 * P) 4 (rgb_scatter_body (data img))
      (replicate (3 * P) 0, RandomSequence (3 * P) seed) =
      Inr (rgb_scattered (data img) (RandomSequence (3 * P) seed) P, [])"
    unfolding rgb_scatter_body_draw rgb_scattered_def
    by (rule draw_loop[OF assms(2)])
  have l2: "\<And>buffer. fst (for_loop 0 (4 * P) 4 (rgb_copy_back_body buffer) (data img, 0)) =
      fold (\<lambda>p dd. triple dd (4 * p) buffer (3 * p)) [0..<P] (data img)"
    by (simp add: for_loop_fold_step copy_back_state)
  show ?thesis
    unfolding ShuffleRgbCodec_doEncrypt_def Let_def n
    unfolding assms(1) l1
    by (simp add: l2 rgb_encoded_def)
qed

lemma doDecrypt_rgb:
  assumes "length (data img) = 4 * P" and "length (RandomSequence (3 * P) seed) = 3 * P"
  shows "ShuffleRgbCodec_doDecrypt RandomSequence seed img =
     Inr (img\<lparr>data := rgb_decoded (data img) (RandomSequence (3 * P) seed) P\<rparr>)"
proof -
  have n: "length (data img) div 4 * 3 = 3 * P" using assms(1) by simp
  have l1: "fst (for_loop 0 (4 * P) 4 (rgb_gather_body (data img)) (replicate (3 * P) 0, 0)) =
      rgb_gathered (data img) P"
    by (simp add: for_loop_fold_step gather_state rgb_gathered_def)
  have l2: "\<And>buffer. for_loopE 0 (4 * P) 4 (rgb_take_back_body buffer)
      (data img, RandomSequence (3 * P) seed) =
      Inr (fold (\<lambda>m dd. ta_set dd (rgb_key m) (ta_get buffer (RandomSequence (3 * P) seed ! m)))
        [0..<3 * P] (data img), [])"
    unfolding rgb_take_back_body_draw
    by (rule draw_loop[OF assms(2)])
  show ?thesis
    unfolding ShuffleRgbCodec_doDecrypt_def Let_def n
    unfolding assms(1) l1 l2
    by (simp add: rgb_decoded_def)
qed

lemma clamp_get: "i < length d \<Longrightarrow> ToUint8Clamp (ta_get d i) = d ! i"
  by (simp add: ta_get_def ToUint8Clamp_def)

lemma rgb_scattered_nth:
  assumes "length d = 4 * P" and "distinct seq" and "length seq = 3 * P"
    and "\<forall>m < 3 * P. seq ! m < 3 * P" and "m < 3 * P"
  shows "rgb_scattered d seq P ! (seq ! m) = d ! rgb_key m"
proof -
  have "rgb_scattered d seq P ! (seq ! m) = ToUint8Clamp (ta_get d (rgb_key m))"
    unfolding rgb_scattered_def
    by (rule scatter_fold_nth) (use assms in simp_all)
  then show ?thesis using rgb_key_less[OF assms(5)] assms(1) by (simp add: clamp_get)
qed

lemma rgb_gathered_nth:
  assumes "length d = 4 * P" and "m < 3 * P"
  shows "rgb_gathered d P ! m = d ! rgb_key m"
proof -
  have "m div 3 < P" using assms(2) by (simp add: div_less_iff_less_mult mult.commute)
  moreover have "m mod 3 < 3" by simp
  moreover have "rgb_gathered d P ! m =
     (if m div 3 < P \<and> m mod 3 < 3
      then ToUint8Clamp (ta_get d (4 * (m div 3) + m mod 3)) else replicate (3 * P) 0 ! m)"
    unfolding rgb_gathered_def
    by (rule triple_fold_nth) (use assms(2) in simp_all)
  ultimately have "rgb_gathered d P ! m = ToUint8Clamp (ta_get d (rgb_key m))"
    by (simp add: rgb_key_def)
  then show ?thesis using rgb_key_less[OF assms(2)] assms(1) by (simp add: clamp_get)
qed

lemma rgb_encoded_nth:
  assumes "length d = 4 * P" and "j < 4 * P"
  shows "rgb_encoded d seq P ! j =
     (if j mod 4 \<noteq> 3 then rgb_scattered d seq P ! rgb_number j else d ! j)"
proof -
  have jd: "j div 4 < P" using assms(2) by (simp add: div_less_iff_less_mult mult.commute)
  have m3: "j mod 4 < 3 \<longleftrightarrow> j mod 4 \<noteq> 3"
    using mod_less_divisor[of 4 j] by linarith
  have "rgb_encoded d seq P ! j =
     (if j div 4 < P \<and> j mod 4 < 3
      then ToUint8Clamp (ta_get (rgb_scattered d seq P) (3 * (j div 4) + j mod 4)) else d ! j)"
    unfolding rgb_encoded_def
    by (rule triple_fold_nth) (use assms in simp_all)
  then have "rgb_encoded d seq P ! j =
     (if j mod 4 \<noteq> 3 then ToUint8Clamp (ta_get (rgb_scattered d seq P) (rgb_number j))
      else d ! j)"
    using jd m3 by (simp add: rgb_number_def)
  then show ?thesis
    using rgb_number_less[OF assms(2)] by (simp add: clamp_get)
qed

lemma rgb_decoded_nth:
  assumes "length d = 4 * P" and "j < 4 * P" and "\<forall>m < 3 * P. seq ! m < 3 * P"
  shows "rgb_decoded d seq P ! j =
     (if j mod 4 \<noteq> 3 then rgb_gathered d P ! (seq ! rgb_number j) else d ! j)"
proof -
  have "rgb_decoded d seq P ! j =
     (if j mod 4 \<noteq> 3 \<and> rgb_number j < 3 * P
      then ToUint8Clamp (ta_get (rgb_gathered d P) (seq ! rgb_number j)) else d ! j)"
    unfolding rgb_decoded_def
    by (rule take_back_fold_nth) (use assms in simp)
  then show ?thesis
    using rgb_number_less[OF assms(2)] assms(3) by (simp add: clamp_get)
qed

lemma alpha_bytes_eq:
  assumes "length d' = length d" and "\<And>j. j < length d \<Longrightarrow> j mod 4 = 3 \<Longrightarrow> d' ! j = d ! j"
  shows "alpha_bytes d' = alpha_bytes d"
proof -
  have "\<And>p. p < length d div 4 \<Longrightarrow> d' ! (4 * p + 3) = d ! (4 * p + 3)"
  proof -
    fix p assume "p < length d div 4"
    then have "Suc p \<le> length d div 4" by simp
    then have "Suc p * 4 \<le> length d" by (simp add: less_eq_div_iff_mult_less_eq)
    then have "p * 4 + 3 < length d" by simp
    moreover have "(p * 4 + 3) mod 4 = 3" by (rule mod_rb) simp
    ultimately show "d' ! (4 * p + 3) = d ! (4 * p + 3)"
      using assms(2)[of "p * 4 + 3"] by (simp add: mult.commute)
  qed
  then show ?thesis
    unfolding alpha_bytes_def assms(1) by (intro map_cong) simp_all
qed

lemma rgb_roundtrip_data:
  assumes len: "length d = 4 * P" and dist: "distinct seq" and ls: "length seq = 3 * P"
    and rng: "\<forall>m < 3 * P. seq ! m < 3 * P"
  shows "rgb_decoded (rgb_encoded d seq P) seq P = d"
proof (rule nth_equalityI)
  show "length (rgb_decoded (rgb_encoded d seq P) seq P) = length d" by simp
next
  fix j assume "j < length (rgb_decoded (rgb_encoded d seq P) seq P)"
  then have j: "j < 4 * P" using len by simp
  let ?e = "rgb_encoded d seq P"
  have le: "length ?e = 4 * P" using len by simp
  show "rgb_decoded ?e seq P ! j = d ! j"
  proof (cases "j mod 4 = 3")
    case True
    then show ?thesis
      using rgb_decoded_nth[OF le j rng] rgb_encoded_nth[OF len j] by simp
  next
    case False
    let ?m = "rgb_number j"
    have m: "?m < 3 * P" by (rule rgb_number_less[OF j False])
    have sm: "seq ! ?m < 3 * P" using rng m by simp
    have "rgb_decoded ?e seq P ! j = rgb_gathered ?e P ! (seq ! ?m)"
      using rgb_decoded_nth[OF le j rng] False by simp
    also have "\<dots> = ?e ! rgb_key (seq ! ?m)"
      by (rule rgb_gathered_nth[OF le sm])
    also have "\<dots> = rgb_scattered d seq P ! rgb_number (rgb_key (seq ! ?m))"
      using rgb_encoded_nth[OF len rgb_key_less[OF sm]] rgb_key_number(3)[of "seq ! ?m"]
      by simp
    also have "\<dots> = rgb_scattered d seq P ! (seq ! ?m)"
      by (simp only: rgb_key_number(2))
    also have "\<dots> = d ! rgb_key ?m"
      by (rule rgb_scattered_nth[OF len dist ls rng m])
    also have "\<dots> = d ! j"
      by (simp only: rgb_key_number(1)[OF False])
    finally show ?thesis .
  qed
qed

text \<open>
  C3. For every well-formed pixel buffer and a sequence constructor that gives a permutation
  sequence for the number of its R, G and B values and the seed, encode of
  \<^verbatim>\<open>ShuffleRgbCodec\<close> succeeds and decode of its result, with the same seed, gives back the
  buffer, so the R, G and B values of every pixel; the alpha bytes after encode are those
  before it, and so are the alpha bytes after decode. Nothing is asked of the alpha bytes:
  the buffers whose alpha bytes are all 255 are among these.
\<close>

theorem ShuffleRgbCodec_roundtrip:
  assumes "well_formed img"
    and "permutation_sequence RandomSequence (length (data img) div 4 * 3) seed"
  shows "\<exists>enc dec.
     ShuffleRgbCodec_doEncrypt RandomSequence seed img = Inr enc \<and>
     ShuffleRgbCodec_doDecrypt RandomSequence seed enc = Inr img \<and>
     alpha_bytes (data enc) = alpha_bytes (data img) \<and>
     ShuffleRgbCodec_doDecrypt RandomSequence seed img = Inr dec \<and>
     alpha_bytes (data dec) = alpha_bytes (data img)"
proof -
  let ?P = "width img * height img"
  let ?seq = "RandomSequence (3 * ?P) seed"
  have len: "length (data img) = 4 * ?P"
    using assms(1) by (simp add: well_formed_def)
  have n: "length (data img) div 4 * 3 = 3 * ?P" using len by simp
  have perm: "permutation_sequence RandomSequence (3 * ?P) seed"
    using assms(2) unfolding n .
  note pf = permutation_sequence_facts[OF perm]
  have rng: "\<forall>m < 3 * ?P. ?seq ! m < 3 * ?P"
  proof (intro allI impI)
    fix m assume "m < 3 * ?P"
    then have "?seq ! m \<in> set ?seq" using pf(1) by simp
    then show "?seq ! m < 3 * ?P" using pf(3) by simp
  qed
  let ?enc = "img\<lparr>data := rgb_encoded (data img) ?seq ?P\<rparr>"
  let ?dec = "img\<lparr>data := rgb_decoded (data img) ?seq ?P\<rparr>"
  have e: "ShuffleRgbCodec_doEncrypt RandomSequence seed img = Inr ?enc"
    using len pf(1) by (rule doEncrypt_rgb)
  have d: "ShuffleRgbCodec_doDecrypt RandomSequence seed img = Inr ?dec"
    using len pf(1) by (rule doDecrypt_rgb)
  have le: "length (data ?enc) = 4 * ?P" using len by simp
  have "ShuffleRgbCodec_doDecrypt RandomSequence seed ?enc =
      Inr (?enc\<lparr>data := rgb_decoded (data ?enc) ?seq ?P\<rparr>)"
    using le pf(1) by (rule doDecrypt_rgb)
  also have "?enc\<lparr>data := rgb_decoded (data ?enc) ?seq ?P\<rparr> = img"
    using rgb_roundtrip_data[OF len pf(2) pf(1) rng] by simp
  finally have r: "ShuffleRgbCodec_doDecrypt RandomSequence seed ?enc = Inr img" .
  have ae: "alpha_bytes (data ?enc) = alpha_bytes (data img)"
    using rgb_encoded_nth[OF len] len by (intro alpha_bytes_eq) simp_all
  have ad: "alpha_bytes (data ?dec) = alpha_bytes (data img)"
    using rgb_decoded_nth[OF len _ rng] len by (intro alpha_bytes_eq) simp_all
  from e r ae d ad show ?thesis by blast
qed

theorem ShuffleRgbCodec_roundtrip_witness:
  "well_formed \<lparr>width = 2, height = 1, data = [1, 2, 3, 255, 4, 5, 6, 255]\<rparr> \<and>
   permutation_sequence example_sequence
     (length (data \<lparr>width = 2, height = 1, data = [1, 2, 3, 255, 4, 5, 6, 255]\<rparr>) div 4 * 3)
     (0::nat) \<and>
   (\<exists>enc dec.
     ShuffleRgbCodec_doEncrypt example_sequence (0::nat)
       \<lparr>width = 2, height = 1, data = [1, 2, 3, 255, 4, 5, 6, 255]\<rparr> = Inr enc \<and>
     ShuffleRgbCodec_doDecrypt example_sequence 0 enc =
       Inr \<lparr>width = 2, height = 1, data = [1, 2, 3, 255, 4, 5, 6, 255]\<rparr> \<and>
     alpha_bytes (data enc) =
       alpha_bytes (data \<lparr>width = 2, height = 1, data = [1, 2, 3, 255, 4, 5, 6, 255]\<rparr>) \<and>
     ShuffleRgbCodec_doDecrypt example_sequence (0::nat)
       \<lparr>width = 2, height = 1, data = [1, 2, 3, 255, 4, 5, 6, 255]\<rparr> = Inr dec \<and>
     alpha_bytes (data dec) =
       alpha_bytes (data \<lparr>width = 2, height = 1, data = [1, 2, 3, 255, 4, 5, 6, 255]\<rparr>))"
proof -
  let ?img = "\<lparr>width = 2, height = 1, data = [1, 2, 3, 255, 4, 5, 6, 255]\<rparr> :: ImageData"
  have wf: "well_formed ?img" by (simp add: well_formed_def)
  have p: "permutation_sequence example_sequence (length (data ?img) div 4 * 3) (0::nat)"
    by (rule example_sequence_permutation)
  from ShuffleRgbCodec_roundtrip[OF wf p] wf p show ?thesis by blast
qed

subsection \<open>The permutation sequence\<close>

lemma swap_drop_mset:
  assumes "i \<le> j" and "j < length xs"
  shows "add_mset (xs ! j) (mset (drop (Suc i) (xs[i := xs ! j, j := xs ! i]))) = mset (drop i xs)"
proof -
  let ?xs' = "xs[i := xs ! j, j := xs ! i]"
  have i: "i < length xs" using assms by simp
  have m: "mset ?xs' = mset xs"
    using mset_swap[OF assms(2) i] by simp
  have t: "take i ?xs' = take i xs" using assms(1) by simp
  have n: "?xs' ! i = xs ! j"
    using assms i by (cases "i = j") simp_all
  have "mset ?xs' = mset (take i ?xs') + mset (drop i ?xs')"
    by (metis append_take_drop_id mset_append)
  also have "drop i ?xs' = ?xs' ! i # drop (Suc i) ?xs'"
    using i by (simp add: Cons_nth_drop_Suc)
  finally have "mset xs = mset (take i xs) + add_mset (xs ! j) (mset (drop (Suc i) ?xs'))"
    unfolding m t n by simp
  moreover have "mset xs = mset (take i xs) + mset (drop i xs)"
    by (metis append_take_drop_id mset_append)
  ultimately show ?thesis by simp
qed

lemma outputs_mset:
  assumes "rs_produced s + k \<le> length (rs_list s)"
  shows "\<exists>ys zs. RandomSequence_outputs prng k s = Some ys \<and> length ys = k \<and>
     mset ys + mset zs = mset (drop (rs_produced s) (rs_list s))"
  using assms
proof (induction k arbitrary: s)
  case 0
  show ?case by (intro exI[of _ "[]"] exI[of _ "drop (rs_produced s) (rs_list s)"]) simp
next
  case (Suc k)
  obtain r g where rg: "prng (rs_rng s) = (r, g)" by (cases "prng (rs_rng s)")
  let ?i = "rs_produced s" and ?xs = "rs_list s"
  let ?j = "?i + r mod (length ?xs - ?i)"
  let ?s' = "\<lparr>rs_list = ?xs[?i := ?xs ! ?j, ?j := ?xs ! ?i], rs_produced = Suc ?i, rs_rng = g\<rparr>"
  have lt: "?i < length ?xs" using Suc.prems by simp
  then have "r mod (length ?xs - ?i) < length ?xs - ?i"
    by (intro mod_less_divisor) simp
  then have j: "?i \<le> ?j" "?j < length ?xs"
    by linarith+
  have nx: "RandomSequence_next prng s = Some (?xs ! ?j, ?s')"
    using lt by (simp add: RandomSequence_next_def rg Let_def)
  have "rs_produced ?s' + k \<le> length (rs_list ?s')" using Suc.prems by simp
  from Suc.IH[OF this] obtain ys zs
    where ys: "RandomSequence_outputs prng k ?s' = Some ys" "length ys = k"
      "mset ys + mset zs = mset (drop (Suc ?i) (?xs[?i := ?xs ! ?j, ?j := ?xs ! ?i]))"
    by auto
  have "mset (?xs ! ?j # ys) + mset zs = mset (drop ?i ?xs)"
    using ys(3) swap_drop_mset[OF j] by simp
  moreover have "RandomSequence_outputs prng (Suc k) s = Some (?xs ! ?j # ys)"
    by (simp add: nx ys(1))
  moreover have "length (?xs ! ?j # ys) = Suc k" using ys(2) by simp
  ultimately show ?case by blast
qed

lemma outputs_prefix:
  "RandomSequence_outputs prng (k + m) s = Some ys \<Longrightarrow>
   RandomSequence_outputs prng k s = Some (take k ys)"
proof (induction k arbitrary: s ys)
  case 0
  then show ?case by simp
next
  case (Suc k)
  then show ?case
    by (auto split: option.splits)
qed

lemma outputs_permutation:
  "\<exists>xs. RandomSequence_outputs prng n (RandomSequence_new n seed) = Some xs \<and>
     mset xs = mset [0..<n]"
proof -
  have "rs_produced (RandomSequence_new n seed) + n \<le> length (rs_list (RandomSequence_new n seed))"
    by (simp add: RandomSequence_new_def)
  from outputs_mset[OF this, of prng] obtain ys zs
    where ys: "RandomSequence_outputs prng n (RandomSequence_new n seed) = Some ys"
      "length ys = n" "mset ys + mset zs = mset [0..<n]"
    by (auto simp add: RandomSequence_new_def)
  have "size (mset ys + mset zs) = n" unfolding ys(3) by simp
  then have "zs = []" using ys(2) by simp
  then show ?thesis using ys by simp
qed

text \<open>
  C1. For every \<open>n\<close> and seed (and every generator \<open>prng\<close>), \<open>n\<close> successive calls of
  \<^verbatim>\<open>next()\<close> on a new sequence all succeed and their outputs are the integers
  \<open>0, \<dots>, n - 1\<close>, each exactly once. The outputs are a function of \<open>(n, seed)\<close>: a sequence
  constructed with the same \<open>(n, seed)\<close> and asked for \<open>k \<le> n\<close> outputs gives the first
  \<open>k\<close> of them. The sequence is a permutation sequence as the codecs ask for.
\<close>

theorem RandomSequence_bijection:
  "\<exists>xs. RandomSequence_outputs prng n (RandomSequence_new n seed) = Some xs \<and>
     length xs = n \<and> distinct xs \<and> set xs = {0..<n} \<and>
     (\<forall>k \<le> n. RandomSequence_outputs prng k (RandomSequence_new n seed) = Some (take k xs)) \<and>
     RandomSequence_model prng n seed = xs \<and>
     permutation_sequence (RandomSequence_model prng) n seed"
proof -
  obtain xs where xs: "RandomSequence_outputs prng n (RandomSequence_new n seed) = Some xs"
    "mset xs = mset [0..<n]"
    using outputs_permutation[of prng n seed] by blast
  have "length xs = n" using mset_eq_length[OF xs(2)] by simp
  moreover have "distinct xs" using mset_eq_imp_distinct_iff[OF xs(2)] by simp
  moreover have "set xs = {0..<n}" using mset_eq_setD[OF xs(2)] by simp
  moreover have "\<forall>k \<le> n. RandomSequence_outputs prng k (RandomSequence_new n seed) = Some (take k xs)"
  proof (intro allI impI)
    fix k assume "k \<le> n"
    then have "n = k + (n - k)" by simp
    then show "RandomSequence_outputs prng k (RandomSequence_new n seed) = Some (take k xs)"
      using outputs_prefix[of prng k "n - k" "RandomSequence_new n seed" xs] xs(1) by simp
  qed
  moreover have "RandomSequence_model prng n seed = xs" by (simp add: RandomSequence_model_def xs(1))
  ultimately show ?thesis
    using xs by (auto simp add: permutation_sequence_def)
qed

theorem RandomSequence_bijection_witness:
  "RandomSequence_outputs example_prng 4 (RandomSequence_new 4 7) = Some [3, 1, 0, 2] \<and>
   length [3, 1, 0, 2 :: nat] = 4 \<and> distinct [3, 1, 0, 2 :: nat] \<and>
   set [3, 1, 0, 2 :: nat] = {0..<4} \<and>
   (2::nat) \<le> 4 \<and>
   RandomSequence_outputs example_prng 2 (RandomSequence_new 4 7) = Some (take 2 [3, 1, 0, 2])"
proof -
  have e: "RandomSequence_outputs example_prng 4 (RandomSequence_new 4 7) = Some [3, 1, 0, 2]"
    by code_simp
  from RandomSequence_bijection[of example_prng 4 7] e show ?thesis
    by auto
qed

subsection \<open>\<^verbatim>\<open>MosaicCodec\<close>, the pixel step\<close>

lemma pixel_index_parts:
  assumes "x < w" and "c < 4"
  shows "pixel_index w x y c mod 4 = c"
    and "pixel_index w x y c div 4 mod w = x"
    and "pixel_index w x y c div 4 div w = y"
proof -
  have m: "pixel_index w x y c mod 4 = c"
    unfolding pixel_index_def using assms(2) by (rule mod_rb)
  have d: "pixel_index w x y c div 4 = y * w + x"
    unfolding pixel_index_def using assms(2) by (rule div_rb)
  show "pixel_index w x y c mod 4 = c" by (rule m)
  show "pixel_index w x y c div 4 mod w = x"
    unfolding d using assms(1) by (rule mod_rb)
  show "pixel_index w x y c div 4 div w = y"
    unfolding d using assms(1) by (rule div_rb)
qed

lemma pixel_index_less:
  assumes "x < w" and "y < h" and "c < 4"
  shows "pixel_index w x y c < w * h * 4"
proof -
  have "y * w + x < h * w" using assms(2,1) by (rule idx_bound)
  then have "(y * w + x) * 4 + c < h * w * 4" using assms(3) by (rule idx_bound)
  then show ?thesis by (simp add: pixel_index_def mult.commute)
qed

lemma pixel_index_of:
  "pixel_index w (j div 4 mod w) (j div 4 div w) (j mod 4) = j"
  by (simp add: pixel_index_def)

lemma pixel_coords_less:
  assumes "(j::nat) < w * h * 4"
  shows "j div 4 mod w < w" and "j div 4 div w < h" and "j mod 4 < 4"
proof -
  have "j < (h * w) * 4" using assms by (simp add: mult.commute)
  then have q: "j div 4 < h * w" by (simp add: div_less_iff_less_mult)
  then have w: "0 < w" by (cases w) simp_all
  show "j div 4 mod w < w" using w by simp
  show "j div 4 div w < h" using q w by (simp add: div_less_iff_less_mult)
  show "j mod 4 < 4" by simp
qed

lemma fold_regions:
  fixes f :: "'b \<Rightarrow> 'a list \<Rightarrow> 'a list"
  assumes step: "\<And>b d j. ok b \<Longrightarrow> length d = L \<Longrightarrow> j < L \<Longrightarrow>
        f b d ! j = (if j \<in> Rg b then g b d j else d ! j)"
    and len: "\<And>b d. ok b \<Longrightarrow> length d = L \<Longrightarrow> length (f b d) = L"
    and loc: "\<And>b d d' j. ok b \<Longrightarrow> length d = L \<Longrightarrow> length d' = L \<Longrightarrow>
        (\<And>i. i \<in> Rg b \<Longrightarrow> i < L \<Longrightarrow> d ! i = d' ! i) \<Longrightarrow> g b d j = g b d' j"
    and disj: "\<And>b b'. ok b \<Longrightarrow> ok b' \<Longrightarrow> b \<noteq> b' \<Longrightarrow> Rg b \<inter> Rg b' = {}"
  shows "\<forall>b \<in> set bs. ok b \<Longrightarrow> distinct bs \<Longrightarrow> length d = L \<Longrightarrow> j < L \<Longrightarrow>
     length (fold f bs d) = L \<and>
     (\<forall>b \<in> set bs. j \<in> Rg b \<longrightarrow> fold f bs d ! j = g b d j) \<and>
     ((\<forall>b \<in> set bs. j \<notin> Rg b) \<longrightarrow> fold f bs d ! j = d ! j)"
proof (induction bs arbitrary: d)
  case Nil
  then show ?case by simp
next
  case (Cons a bs)
  have a: "ok a" and bs: "\<forall>b \<in> set bs. ok b" using Cons.prems(1) by simp_all
  have na: "a \<notin> set bs" and db: "distinct bs" using Cons.prems(2) by simp_all
  let ?d' = "f a d"
  have l': "length ?d' = L" using len[OF a Cons.prems(3)] .
  note ih = Cons.IH[OF bs db l' Cons.prems(4)]
  have d'j: "?d' ! j = (if j \<in> Rg a then g a d j else d ! j)"
    by (rule step[OF a Cons.prems(3,4)])
  have out: "\<And>b i. b \<in> set bs \<Longrightarrow> i \<in> Rg b \<Longrightarrow> i < L \<Longrightarrow> ?d' ! i = d ! i"
  proof -
    fix b i assume b: "b \<in> set bs" and i: "i \<in> Rg b" "i < L"
    have "b \<noteq> a" using b na by auto
    then have "Rg a \<inter> Rg b = {}" using disj[OF a] bs b by auto
    then have "i \<notin> Rg a" using i(1) by auto
    then show "?d' ! i = d ! i" using step[OF a Cons.prems(3) i(2)] by simp
  qed
  have 1: "length (fold f (a # bs) d) = L" using ih by simp
  have 2: "\<forall>b \<in> set (a # bs). j \<in> Rg b \<longrightarrow> fold f (a # bs) d ! j = g b d j"
  proof (intro ballI impI)
    fix b assume b: "b \<in> set (a # bs)" and j: "j \<in> Rg b"
    show "fold f (a # bs) d ! j = g b d j"
    proof (cases "b = a")
      case True
      have "\<forall>b' \<in> set bs. j \<notin> Rg b'"
      proof
        fix b' assume b': "b' \<in> set bs"
        then have "b' \<noteq> a" using na by auto
        then have "Rg a \<inter> Rg b' = {}" using disj[OF a] bs b' by auto
        then show "j \<notin> Rg b'" using j True by auto
      qed
      then have "fold f bs ?d' ! j = ?d' ! j" using ih by simp
      then show ?thesis using d'j j True by simp
    next
      case False
      then have b': "b \<in> set bs" using b by simp
      then have "fold f bs ?d' ! j = g b ?d' j" using ih j by simp
      also have "\<dots> = g b d j"
        using bs b' by (intro loc[OF _ l' Cons.prems(3)] out) simp_all
      finally show ?thesis by simp
    qed
  qed
  have 3: "(\<forall>b \<in> set (a # bs). j \<notin> Rg b) \<longrightarrow> fold f (a # bs) d ! j = d ! j"
    using ih d'j by simp
  from 1 2 3 show ?case by blast
qed

lemma idx_alg:
  "pixel_index W x0 y0 c + y * (W * 4) + x * 4 = pixel_index W (x0 + x) (y0 + y) c"
  by (simp add: pixel_index_def algebra_simps)

lemma total_row:
  "\<forall>x < n. f x < length d \<Longrightarrow>
   fold (\<lambda>x tot. add_total tot (ta_get d (f x))) [0..<n] (Some t) =
     Some (t + (\<Sum>x \<leftarrow> [0..<n]. unat (d ! f x)))"
  by (induction n) (simp_all add: add_total_def ta_get_def)

lemma total_rows:
  assumes "\<forall>y < m. \<forall>x < bw. a0 + y * (W * 4) + x * 4 < length d"
  shows "fold (\<lambda>y (tot, iS).
            (fold (\<lambda>x tot. add_total tot (ta_get d (iS + x * 4))) [0..<bw] tot, iS + W * 4))
          [0..<m] (Some t, a0) =
     (Some (t + (\<Sum>y \<leftarrow> [0..<m]. \<Sum>x \<leftarrow> [0..<bw]. unat (d ! (a0 + y * (W * 4) + x * 4)))),
      a0 + m * (W * 4))"
  using assms
proof (induction m)
  case 0
  then show ?case by simp
next
  case (Suc m)
  have r: "\<forall>x < bw. a0 + m * (W * 4) + x * 4 < length d" using Suc.prems by simp
  have ih: "fold (\<lambda>y (tot, iS).
            (fold (\<lambda>x tot. add_total tot (ta_get d (iS + x * 4))) [0..<bw] tot, iS + W * 4))
          [0..<m] (Some t, a0) =
     (Some (t + (\<Sum>y \<leftarrow> [0..<m]. \<Sum>x \<leftarrow> [0..<bw]. unat (d ! (a0 + y * (W * 4) + x * 4)))),
      a0 + m * (W * 4))"
    using Suc by simp
  show ?case
    by (simp add: ih total_row[OF r])
qed

lemma mosaic_total_eq:
  assumes "x0 + bw \<le> W" and "y0 + bh \<le> H" and "c < 4" and "length d = W * H * 4"
  shows "mosaic_total d (pixel_index W x0 y0 c) W bw bh = Some (bsum d W x0 y0 bw bh c)"
proof -
  have r: "\<forall>y < bh. \<forall>x < bw. pixel_index W x0 y0 c + y * (W * 4) + x * 4 < length d"
  proof (intro allI impI)
    fix y x assume "y < bh" "x < bw"
    then have "x0 + x < W" "y0 + y < H" using assms(1,2) by simp_all
    then show "pixel_index W x0 y0 c + y * (W * 4) + x * 4 < length d"
      unfolding idx_alg assms(4) using assms(3) by (rule pixel_index_less)
  qed
  show ?thesis
    unfolding mosaic_total_def for_loop_fold total_rows[OF r] idx_alg
    by (simp add: bsum_def)
qed

lemma fill_length [simp]: "length (fold (\<lambda>x d. d[f x := v]) xs d) = length d"
  by (induction xs arbitrary: d) simp_all

lemma fill_nth:
  "j < length d \<Longrightarrow>
   fold (\<lambda>x d. d[f x := v]) xs d ! j = (if j \<in> f ` set xs then v else d ! j)"
  by (induction xs arbitrary: d) (auto simp add: nth_list_update)

lemma fill2_length [simp]:
  "length (fold (\<lambda>y d. fold (\<lambda>x d. d[f y x := v]) xs d) ys d) = length d"
  by (induction ys arbitrary: d) simp_all

lemma fill2_nth:
  "j < length d \<Longrightarrow>
   fold (\<lambda>y d. fold (\<lambda>x d. d[f y x := v]) xs d) ys d ! j =
     (if \<exists>y \<in> set ys. \<exists>x \<in> set xs. j = f y x then v else d ! j)"
proof (induction ys arbitrary: d)
  case Nil
  then show ?case by simp
next
  case (Cons y ys)
  have "j < length (fold (\<lambda>x d. d[f y x := v]) xs d)" using Cons.prems by simp
  from Cons.IH[OF this] show ?case
    using Cons.prems by (auto simp add: fill_nth)
qed

lemma fill_rows:
  "fold (\<lambda>y (d, iS). (fold (\<lambda>x d. d[iS + x * 4 := v]) [0..<bw] d, iS + W * 4))
          [0..<m] (d, a0) =
     (fold (\<lambda>y d. fold (\<lambda>x d. d[a0 + y * (W * 4) + x * 4 := v]) [0..<bw] d) [0..<m] d,
      a0 + m * (W * 4))"
  by (induction m) simp_all

lemma mosaic_fill_eq:
  "mosaic_fill d (pixel_index W x0 y0 c) W bw bh v =
     fold (\<lambda>y d. fold (\<lambda>x d. d[pixel_index W (x0 + x) (y0 + y) c := v]) [0..<bw] d) [0..<bh] d"
  unfolding mosaic_fill_def for_loop_fold fill_rows idx_alg by simp

lemma mosaic_fill_length [simp]:
  "length (mosaic_fill d (pixel_index W x0 y0 c) W bw bh v) = length d"
  by (simp add: mosaic_fill_eq)

lemma mosaic_fill_nth:
  assumes "j < length d"
  shows "mosaic_fill d (pixel_index W x0 y0 c) W bw bh v ! j =
     (if j \<in> region W x0 y0 bw bh c then v else d ! j)"
proof -
  have "j \<in> region W x0 y0 bw bh c \<longleftrightarrow>
      (\<exists>y \<in> set [0..<bh]. \<exists>x \<in> set [0..<bw]. j = pixel_index W (x0 + x) (y0 + y) c)"
    unfolding region_def by (simp add: Bex_def) blast
  then show ?thesis
    unfolding mosaic_fill_eq
    using fill2_nth[OF assms, of "\<lambda>y x. pixel_index W (x0 + x) (y0 + y) c" v "[0..<bw]" "[0..<bh]"]
    by simp
qed

lemma Math_round_mean:
  assumes "0 < bw" and "0 < bh"
  shows "nat (Math_round (of_nat t / of_nat bw / of_nat bh)) = rounded_mean t (bw * bh)"
proof -
  have n: "(of_nat (bw * bh) :: rat) \<noteq> 0" using assms by simp
  have "(of_nat t / of_nat bw / of_nat bh :: rat) + 1 / 2 =
      of_nat t / of_nat (bw * bh) + 1 / 2"
    by simp
  also have "\<dots> = (2 * of_nat t + of_nat (bw * bh)) / (2 * of_nat (bw * bh))"
    using n by (simp add: field_simps)
  also have "\<dots> = of_nat (2 * t + bw * bh) / of_nat (2 * (bw * bh))"
    by simp
  finally have "Math_round (of_nat t / of_nat bw / of_nat bh) =
      \<lfloor>(of_nat (2 * t + bw * bh) :: rat) / of_nat (2 * (bw * bh))\<rfloor>"
    by (simp only: Math_round_def)
  also have "\<dots> = int ((2 * t + bw * bh) div (2 * (bw * bh)))"
    by (rule floor_divide_of_nat_eq)
  finally show ?thesis by (simp add: rounded_mean_def)
qed

lemma rounded_mean_le:
  assumes "0 < n" and "t \<le> 255 * n"
  shows "rounded_mean t n \<le> 255"
proof -
  have "2 * t + n < 256 * (2 * n)" using assms by simp
  then have "(2 * t + n) div (2 * n) < 256"
    using assms(1) by (simp add: div_less_iff_less_mult)
  then show ?thesis by (simp add: rounded_mean_def)
qed

lemma sum_list_bound:
  "(\<And>x. x \<in> set xs \<Longrightarrow> f x \<le> (K::nat)) \<Longrightarrow> sum_list (map f xs) \<le> length xs * K"
  by (induction xs) (simp_all add: add_mono)

lemma unat_byte_le: "unat (b :: byte) \<le> 255"
  using unsigned_less[of b, where 'a = nat] by simp

lemma bsum_le: "bsum d W x0 y0 bw bh c \<le> 255 * (bw * bh)"
proof -
  have "\<And>y. (\<Sum>x \<leftarrow> [0..<bw]. unat (d ! pixel_index W (x0 + x) (y0 + y) c)) \<le> bw * 255"
    using sum_list_bound[of "[0..<bw]" _ 255] unat_byte_le by simp
  then have "bsum d W x0 y0 bw bh c \<le> length [0..<bh] * (bw * 255)"
    unfolding bsum_def by (intro sum_list_bound)
  then show ?thesis by (simp add: mult.commute mult.left_commute)
qed

lemma mosaic_average_eq:
  assumes "0 < bw" and "0 < bh"
  shows "mosaic_average (Some (bsum d W x0 y0 bw bh c)) bw bh = bmean d W x0 y0 bw bh c"
proof -
  have le: "rounded_mean (bsum d W x0 y0 bw bh c) (bw * bh) \<le> 255"
    using assms by (intro rounded_mean_le bsum_le) simp
  have "mosaic_average (Some (bsum d W x0 y0 bw bh c)) bw bh =
      of_nat (min 255 (rounded_mean (bsum d W x0 y0 bw bh c) (bw * bh)))"
    by (simp only: mosaic_average_def option.case Math_round_mean[OF assms])
  also have "min 255 (rounded_mean (bsum d W x0 y0 bw bh c) (bw * bh)) =
      rounded_mean (bsum d W x0 y0 bw bh c) (bw * bh)"
    using le by (rule min_absorb2)
  finally show ?thesis by (simp only: bmean_def)
qed

lemma mosaic_channel_eq:
  "mosaic_channel W x0 y0 bw bh c d =
      mosaic_fill d (pixel_index W x0 y0 c) W bw bh
        (mosaic_average (mosaic_total d (pixel_index W x0 y0 c) W bw bh) bw bh)"
  unfolding mosaic_channel_def Let_def pixel_index_def ..

lemma mosaic_channel_length [simp]:
  "length (mosaic_channel W x0 y0 bw bh c d) = length d"
  unfolding mosaic_channel_eq by (rule mosaic_fill_length)

lemma mosaic_channel_nth:
  assumes "x0 + bw \<le> W" and "y0 + bh \<le> H" and "c < 4" and "0 < bw" and "0 < bh"
    and "length d = W * H * 4" and "j < W * H * 4"
  shows "mosaic_channel W x0 y0 bw bh c d ! j =
     (if j \<in> region W x0 y0 bw bh c then bmean d W x0 y0 bw bh c else d ! j)"
proof -
  have "mosaic_channel W x0 y0 bw bh c d =
      mosaic_fill d (pixel_index W x0 y0 c) W bw bh
        (mosaic_average (mosaic_total d (pixel_index W x0 y0 c) W bw bh) bw bh)"
    by (rule mosaic_channel_eq)
  also have "\<dots> = mosaic_fill d (pixel_index W x0 y0 c) W bw bh (bmean d W x0 y0 bw bh c)"
    by (simp only: mosaic_total_eq[OF assms(1,2,3,6)] mosaic_average_eq[OF assms(4,5)])
  finally show ?thesis
    using mosaic_fill_nth[of j d] assms(6,7) by simp
qed

lemma pixel_index_mod4: "c < 4 \<Longrightarrow> pixel_index w x y c mod 4 = c"
  unfolding pixel_index_def by (rule mod_rb)

lemma region_mod4: "c < 4 \<Longrightarrow> j \<in> region W x0 y0 bw bh c \<Longrightarrow> j mod 4 = c"
  unfolding region_def using pixel_index_mod4 by blast

lemma region_less:
  assumes "x0 + bw \<le> W" and "y0 + bh \<le> H" and "c < 4" and "j \<in> region W x0 y0 bw bh c"
  shows "j < W * H * 4"
proof -
  from assms(4) obtain x y where j: "j = pixel_index W (x0 + x) (y0 + y) c" "x < bw" "y < bh"
    by (auto simp add: region_def)
  have "x0 + x < W" "y0 + y < H" using j assms(1,2) by simp_all
  then show ?thesis unfolding j(1) using assms(3) by (rule pixel_index_less)
qed

lemma bsum_cong:
  assumes "\<And>i. i \<in> region W x0 y0 bw bh c \<Longrightarrow> d ! i = d' ! i"
  shows "bsum d W x0 y0 bw bh c = bsum d' W x0 y0 bw bh c"
proof -
  have "\<And>x y. x < bw \<Longrightarrow> y < bh \<Longrightarrow>
      d ! pixel_index W (x0 + x) (y0 + y) c = d' ! pixel_index W (x0 + x) (y0 + y) c"
    by (rule assms) (auto simp add: region_def)
  then show ?thesis
    unfolding bsum_def
    by (intro arg_cong[where f = sum_list] map_cong refl) simp
qed

lemma mosaic_data_nth:
  assumes blk: "x0 + bw \<le> W" "y0 + bh \<le> H" and pos: "0 < bw" "0 < bh"
    and len: "length d = W * H * 4" and j: "j < W * H * 4"
  shows "length (mosaic_data W x0 y0 bw bh d) = W * H * 4"
    and "mosaic_data W x0 y0 bw bh d ! j =
     (if j \<in> bregion W x0 y0 bw bh then bmean d W x0 y0 bw bh (j mod 4) else d ! j)"
proof -
  have r: "length (fold (mosaic_channel W x0 y0 bw bh) [0..<4] d) = W * H * 4 \<and>
     (\<forall>c \<in> set [0..<4]. j \<in> region W x0 y0 bw bh c \<longrightarrow>
        fold (mosaic_channel W x0 y0 bw bh) [0..<4] d ! j = bmean d W x0 y0 bw bh c) \<and>
     ((\<forall>c \<in> set [0..<4]. j \<notin> region W x0 y0 bw bh c) \<longrightarrow>
        fold (mosaic_channel W x0 y0 bw bh) [0..<4] d ! j = d ! j)"
  proof (rule fold_regions[where ok = "\<lambda>c. c < 4" and L = "W * H * 4"
        and g = "\<lambda>c d j. bmean d W x0 y0 bw bh c"])
    fix c :: nat and d :: "byte list" and j :: nat
    assume "c < 4" "length d = W * H * 4" "j < W * H * 4"
    then show "mosaic_channel W x0 y0 bw bh c d ! j =
        (if j \<in> region W x0 y0 bw bh c then bmean d W x0 y0 bw bh c else d ! j)"
      using blk pos by (intro mosaic_channel_nth)
  next
    fix c :: nat and d :: "byte list" assume "length d = W * H * 4"
    then show "length (mosaic_channel W x0 y0 bw bh c d) = W * H * 4" by simp
  next
    fix c :: nat and d d' :: "byte list" and j :: nat
    assume c: "c < 4"
      and e: "\<And>i. i \<in> region W x0 y0 bw bh c \<Longrightarrow> i < W * H * 4 \<Longrightarrow> d ! i = d' ! i"
    have "bsum d W x0 y0 bw bh c = bsum d' W x0 y0 bw bh c"
      by (rule bsum_cong) (use e region_less[OF blk c] in blast)
    then show "bmean d W x0 y0 bw bh c = bmean d' W x0 y0 bw bh c"
      by (simp add: bmean_def)
  next
    fix c c' :: nat assume "c < 4" "c' < 4" "c \<noteq> c'"
    then show "region W x0 y0 bw bh c \<inter> region W x0 y0 bw bh c' = {}"
      using region_mod4 by blast
  next
    show "\<forall>c \<in> set [0..<4]. c < 4" by simp
    show "distinct [0..<4]" by simp
    show "length d = W * H * 4" by (rule len)
    show "j < W * H * 4" by (rule j)
  qed
  show "length (mosaic_data W x0 y0 bw bh d) = W * H * 4"
    using r by (simp add: mosaic_data_def)
  show "mosaic_data W x0 y0 bw bh d ! j =
     (if j \<in> bregion W x0 y0 bw bh then bmean d W x0 y0 bw bh (j mod 4) else d ! j)"
  proof (cases "j \<in> bregion W x0 y0 bw bh")
    case True
    then obtain c where c: "c < 4" "j \<in> region W x0 y0 bw bh c"
      by (auto simp add: bregion_def)
    then have "j mod 4 = c" using region_mod4 by blast
    then show ?thesis using r c True by (simp add: mosaic_data_def)
  next
    case False
    then have "\<forall>c \<in> set [0..<4]. j \<notin> region W x0 y0 bw bh c"
      by (auto simp add: bregion_def)
    then show ?thesis using r False by (simp add: mosaic_data_def)
  qed
qed

lemma for_loop_fold32:
  "for_loop 0 n 32 body s = fold (\<lambda>p. body (32 * p)) [0..<(n + 31) div 32] s"
  using for_loop_fold_gen[of 32 0 n body s] by (simp add: add.commute)

lemma fold_data:
  fixes img :: ImageData
  shows "fold (\<lambda>b img. img\<lparr>data := F b (width img) (height img) (data img)\<rparr>) bs img =
     img\<lparr>data := fold (\<lambda>b. F b (width img) (height img)) bs (data img)\<rparr>"
  by (induction bs arbitrary: img) simp_all

lemma fold_pairs:
  "fold (\<lambda>r. fold (\<lambda>c. h (r, c)) cs) rs s = fold h (concat (map (\<lambda>r. map (Pair r) cs) rs)) s"
  by (induction rs arbitrary: s) (simp_all add: fold_map comp_def)

lemma MosaicCodec_mosaic_data:
  "MosaicCodec_mosaic x y bw bh img =
     img\<lparr>data := mosaic_data (width img) x y bw bh (data img)\<rparr>"
  by (simp add: MosaicCodec_mosaic_def mosaic_data_def for_loop_fold)

lemma doEncrypt_blocks:
  "MosaicCodec_doEncrypt img =
     img\<lparr>data := fold (mosaic_block (width img) (height img))
       (mosaic_blocks (width img) (height img)) (data img)\<rparr>"
proof -
  have inner: "\<And>y (img :: ImageData).
      (let blockHeight = min BLOCK_SIZE (height img - y)
       in for_loop 0 (width img) BLOCK_SIZE
            (\<lambda>x img. let blockWidth = min BLOCK_SIZE (width img - x)
               in MosaicCodec_mosaic x y blockWidth blockHeight img) img) =
      img\<lparr>data := fold (\<lambda>X. mosaic_data (width img) (32 * X) y
          (min 32 (width img - 32 * X)) (min 32 (height img - y)))
        [0..<(width img + 31) div 32] (data img)\<rparr>"
  proof -
    fix y and img :: ImageData
    show "(let blockHeight = min BLOCK_SIZE (height img - y)
       in for_loop 0 (width img) BLOCK_SIZE
            (\<lambda>x img. let blockWidth = min BLOCK_SIZE (width img - x)
               in MosaicCodec_mosaic x y blockWidth blockHeight img) img) =
      img\<lparr>data := fold (\<lambda>X. mosaic_data (width img) (32 * X) y
          (min 32 (width img - 32 * X)) (min 32 (height img - y)))
        [0..<(width img + 31) div 32] (data img)\<rparr>"
      unfolding Let_def BLOCK_SIZE_def for_loop_fold32 MosaicCodec_mosaic_data
      using fold_data[of "\<lambda>X W H. mosaic_data W (32 * X) y (min 32 (W - 32 * X))
          (min 32 (height img - y))" "[0..<(width img + 31) div 32]" img]
      by simp
  qed
  have "MosaicCodec_doEncrypt img =
      fold (\<lambda>R img. img\<lparr>data := fold (\<lambda>X. mosaic_data (width img) (32 * X) (32 * R)
          (min 32 (width img - 32 * X)) (min 32 (height img - 32 * R)))
        [0..<(width img + 31) div 32] (data img)\<rparr>) [0..<(height img + 31) div 32] img"
    unfolding MosaicCodec_doEncrypt_def inner
    by (simp add: BLOCK_SIZE_def for_loop_fold32)
  also have "\<dots> = img\<lparr>data := fold (\<lambda>R. fold (\<lambda>X. mosaic_data (width img) (32 * X) (32 * R)
          (min 32 (width img - 32 * X)) (min 32 (height img - 32 * R)))
        [0..<(width img + 31) div 32]) [0..<(height img + 31) div 32] (data img)\<rparr>"
    using fold_data[of "\<lambda>R W H. fold (\<lambda>X. mosaic_data W (32 * X) (32 * R)
          (min 32 (W - 32 * X)) (min 32 (H - 32 * R))) [0..<(W + 31) div 32]"
        "[0..<(height img + 31) div 32]" img]
    by simp
  also have "fold (\<lambda>R. fold (\<lambda>X. mosaic_data (width img) (32 * X) (32 * R)
          (min 32 (width img - 32 * X)) (min 32 (height img - 32 * R)))
        [0..<(width img + 31) div 32]) [0..<(height img + 31) div 32] (data img) =
      fold (mosaic_block (width img) (height img)) (mosaic_blocks (width img) (height img))
        (data img)"
    using fold_pairs[of "mosaic_block (width img) (height img)" "[0..<(width img + 31) div 32]"
        "[0..<(height img + 31) div 32]" "data img"]
    by (simp add: mosaic_block_def mosaic_blocks_def)
  finally show ?thesis .
qed

lemma mosaic_blocks_set:
  "set (mosaic_blocks W H) = {(R, X). 32 * R < H \<and> 32 * X < W}"
proof -
  have "\<And>a n. a < (n + 31) div 32 \<longleftrightarrow> 32 * a < (n::nat)"
    using loop_bound[of 32] by (simp add: add.commute)
  then show ?thesis by (auto simp add: mosaic_blocks_def)
qed

lemma mosaic_blocks_distinct: "distinct (mosaic_blocks W H)"
proof -
  have "distinct (concat (map (\<lambda>R. map (Pair R) [0..<n]) [0..<m]))" for n m :: nat
  proof (induction m)
    case 0
    show ?case by simp
  next
    case (Suc m)
    have "distinct (map (Pair m) [0..<n])" by (simp add: distinct_map inj_on_def)
    then show ?case using Suc by auto
  qed
  then show ?thesis by (simp add: mosaic_blocks_def)
qed

lemma bregion_coords:
  assumes "j \<in> bregion W (32 * X) (32 * R) bw bh" and "bw \<le> 32" and "bh \<le> 32"
    and "32 * X + bw \<le> W"
  shows "j div 4 mod W div 32 = X" and "j div 4 div W div 32 = R"
proof -
  from assms(1) obtain c x y where c: "c < 4" and x: "x < bw" and y: "y < bh"
    and j: "j = pixel_index W (32 * X + x) (32 * R + y) c"
    by (auto simp add: bregion_def region_def)
  have xw: "32 * X + x < W" using x assms(4) by simp
  have "j div 4 mod W = 32 * X + x" "j div 4 div W = 32 * R + y"
    unfolding j using pixel_index_parts(2,3)[OF xw c] by simp_all
  moreover have "x < 32" "y < 32" using x y assms(2,3) by simp_all
  ultimately show "j div 4 mod W div 32 = X" and "j div 4 div W div 32 = R"
    by simp_all
qed

lemma bregion_member:
  assumes "j < W * H * 4"
  shows "j \<in> bregion W (32 * (j div 4 mod W div 32)) (32 * (j div 4 div W div 32))
      (min 32 (W - 32 * (j div 4 mod W div 32))) (min 32 (H - 32 * (j div 4 div W div 32)))"
proof -
  define px where "px = j div 4 mod W"
  define py where "py = j div 4 div W"
  have px: "px < W" and py: "py < H" and c: "j mod 4 < 4"
    unfolding px_def py_def using pixel_coords_less[OF assms] by simp_all
  have j: "j = pixel_index W (32 * (px div 32) + px mod 32) (32 * (py div 32) + py mod 32) (j mod 4)"
    unfolding px_def py_def by (simp add: pixel_index_of)
  have "px mod 32 < min 32 (W - 32 * (px div 32))"
  proof -
    have "32 * (px div 32) + px mod 32 < W" using px by simp
    then have "px mod 32 < W - 32 * (px div 32)" by linarith
    then show ?thesis by simp
  qed
  moreover have "py mod 32 < min 32 (H - 32 * (py div 32))"
  proof -
    have "32 * (py div 32) + py mod 32 < H" using py by simp
    then have "py mod 32 < H - 32 * (py div 32)" by linarith
    then show ?thesis by simp
  qed
  ultimately have "j \<in> region W (32 * (px div 32)) (32 * (py div 32))
      (min 32 (W - 32 * (px div 32))) (min 32 (H - 32 * (py div 32))) (j mod 4)"
    unfolding region_def using j by blast
  then show ?thesis
    unfolding bregion_def px_def py_def using c by auto
qed

lemma bmean_cong:
  assumes "\<And>i. i \<in> bregion W x0 y0 bw bh \<Longrightarrow> d ! i = d' ! i" and "c < 4"
  shows "bmean d W x0 y0 bw bh c = bmean d' W x0 y0 bw bh c"
proof -
  have "bsum d W x0 y0 bw bh c = bsum d' W x0 y0 bw bh c"
  proof (rule bsum_cong)
    fix i assume "i \<in> region W x0 y0 bw bh c"
    then have "i \<in> bregion W x0 y0 bw bh" using assms(2) by (auto simp add: bregion_def)
    then show "d ! i = d' ! i" by (rule assms(1))
  qed
  then show ?thesis by (simp add: bmean_def)
qed

lemma bregion_less:
  assumes "x0 + bw \<le> W" and "y0 + bh \<le> H" and "j \<in> bregion W x0 y0 bw bh"
  shows "j < W * H * 4"
  using assms region_less[of x0 bw W y0 bh H] by (auto simp add: bregion_def)

text \<open>The data after all the blocks, byte by byte.\<close>

lemma mosaic_blocks_nth:
  assumes len: "length d = W * H * 4" and j: "j < W * H * 4"
  shows "length (fold (mosaic_block W H) (mosaic_blocks W H) d) = W * H * 4"
    and "fold (mosaic_block W H) (mosaic_blocks W H) d ! j =
      bmean d W (32 * (j div 4 mod W div 32)) (32 * (j div 4 div W div 32))
        (min 32 (W - 32 * (j div 4 mod W div 32))) (min 32 (H - 32 * (j div 4 div W div 32)))
        (j mod 4)"
proof -
  define ok :: "nat \<times> nat \<Rightarrow> bool" where "ok = (\<lambda>(R, X). 32 * R < H \<and> 32 * X < W)"
  define Rg :: "nat \<times> nat \<Rightarrow> nat set" where
    "Rg = (\<lambda>(R, X). bregion W (32 * X) (32 * R) (min 32 (W - 32 * X)) (min 32 (H - 32 * R)))"
  define g :: "nat \<times> nat \<Rightarrow> byte list \<Rightarrow> nat \<Rightarrow> byte" where
    "g = (\<lambda>(R, X) d j. bmean d W (32 * X) (32 * R) (min 32 (W - 32 * X))
        (min 32 (H - 32 * R)) (j mod 4))"
  define L where "L = W * H * 4"
  have blk: "32 * X + min 32 (W - 32 * X) \<le> W" "32 * R + min 32 (H - 32 * R) \<le> H"
    "0 < min 32 (W - 32 * X)" "0 < min 32 (H - 32 * R)"
    if "ok (R, X)" for R X
    using that by (auto simp add: ok_def min_def)
  have step: "mosaic_block W H b d ! j = (if j \<in> Rg b then g b d j else d ! j)"
    if "ok b" "length d = L" "j < L"
    for b and d :: "byte list" and j :: nat
  proof -
    obtain R X where b: "b = (R, X)" by (cases b)
    have o: "ok (R, X)" using that(1) b by simp
    show ?thesis
      unfolding b mosaic_block_def Rg_def g_def prod.case
      using that(2,3) unfolding L_def
      by (rule mosaic_data_nth(2)[OF blk[OF o]])
  qed
  have lenf: "length (mosaic_block W H b d) = L" if "ok b" "length d = L"
    for b and d :: "byte list"
  proof -
    obtain R X where b: "b = (R, X)" by (cases b)
    have o: "ok (R, X)" using that(1) b by simp
    have "0 < W" "0 < H" using o by (simp_all add: ok_def)
    then have "(0::nat) < W * H * 4" by simp
    with that(2) show ?thesis
      unfolding b mosaic_block_def prod.case L_def
      by (rule mosaic_data_nth(1)[OF blk[OF o]])
  qed
  have loc: "g b d j = g b d' j"
    if "ok b" "length d = L" "length d' = L"
      and eq: "\<And>i. i \<in> Rg b \<Longrightarrow> i < L \<Longrightarrow> d ! i = d' ! i"
    for b and d d' :: "byte list" and j :: nat
  proof -
    obtain R X where b: "b = (R, X)" by (cases b)
    have o: "ok (R, X)" using that(1) b by simp
    show ?thesis
      unfolding b g_def prod.case
    proof (rule bmean_cong)
      fix i assume i: "i \<in> bregion W (32 * X) (32 * R) (min 32 (W - 32 * X)) (min 32 (H - 32 * R))"
      then have "i < L" unfolding L_def by (rule bregion_less[OF blk(1,2)[OF o]])
      moreover have "i \<in> Rg b" using i by (simp add: b Rg_def)
      ultimately show "d ! i = d' ! i" using eq by simp
    qed simp
  qed
  have disj: "Rg b \<inter> Rg b' = {}" if "ok b" "ok b'" "b \<noteq> b'" for b b'
  proof -
    obtain R X where b: "b = (R, X)" by (cases b)
    obtain R' X' where b': "b' = (R', X')" by (cases b')
    have o: "ok (R, X)" "ok (R', X')" using that(1,2) b b' by simp_all
    {
      fix i assume i: "i \<in> Rg b" and i': "i \<in> Rg b'"
      have "i div 4 mod W div 32 = X" "i div 4 div W div 32 = R"
        using bregion_coords[OF _ _ _ blk(1)[OF o(1)], of i R "min 32 (H - 32 * R)"] i
        by (simp_all add: b Rg_def)
      moreover have "i div 4 mod W div 32 = X'" "i div 4 div W div 32 = R'"
        using bregion_coords[OF _ _ _ blk(1)[OF o(2)], of i R' "min 32 (H - 32 * R')"] i'
        by (simp_all add: b' Rg_def)
      ultimately have False using that(3) b b' by simp
    }
    then show ?thesis by blast
  qed
  have all: "\<forall>b \<in> set (mosaic_blocks W H). ok b"
    by (auto simp add: mosaic_blocks_set ok_def)
  have lenL: "length d = L" and jL: "j < L" using len j by (simp_all add: L_def)
  have fr: "length (fold (mosaic_block W H) (mosaic_blocks W H) d) = L \<and>
     (\<forall>b \<in> set (mosaic_blocks W H). j \<in> Rg b \<longrightarrow>
        fold (mosaic_block W H) (mosaic_blocks W H) d ! j = g b d j) \<and>
     ((\<forall>b \<in> set (mosaic_blocks W H). j \<notin> Rg b) \<longrightarrow>
        fold (mosaic_block W H) (mosaic_blocks W H) d ! j = d ! j)"
  proof (rule fold_regions[where ok = ok and L = L and Rg = Rg and g = g])
    show "\<And>b d j. ok b \<Longrightarrow> length d = L \<Longrightarrow> j < L \<Longrightarrow>
        mosaic_block W H b d ! j = (if j \<in> Rg b then g b d j else d ! j)"
      by (rule step)
    show "\<And>b d. ok b \<Longrightarrow> length d = L \<Longrightarrow> length (mosaic_block W H b d) = L"
      by (rule lenf)
    show "\<And>b d d' j. ok b \<Longrightarrow> length d = L \<Longrightarrow> length d' = L \<Longrightarrow>
        (\<And>i. i \<in> Rg b \<Longrightarrow> i < L \<Longrightarrow> d ! i = d' ! i) \<Longrightarrow> g b d j = g b d' j"
      by (rule loc)
    show "\<And>b b'. ok b \<Longrightarrow> ok b' \<Longrightarrow> b \<noteq> b' \<Longrightarrow> Rg b \<inter> Rg b' = {}"
      by (rule disj)
  qed (rule all mosaic_blocks_distinct lenL jL)+
  show "length (fold (mosaic_block W H) (mosaic_blocks W H) d) = W * H * 4"
    using fr by (simp add: L_def)
  define R where "R = j div 4 div W div 32"
  define X where "X = j div 4 mod W div 32"
  have px: "j div 4 mod W < W" and py: "j div 4 div W < H"
    using pixel_coords_less[OF j] by simp_all
  have "32 * X \<le> j div 4 mod W" "32 * R \<le> j div 4 div W"
    unfolding X_def R_def by simp_all
  then have "32 * X < W" "32 * R < H" using px py by linarith+
  then have mem: "(R, X) \<in> set (mosaic_blocks W H)" by (simp add: mosaic_blocks_set)
  have "j \<in> Rg (R, X)"
    unfolding Rg_def prod.case R_def X_def using j by (rule bregion_member)
  with fr mem have "fold (mosaic_block W H) (mosaic_blocks W H) d ! j = g (R, X) d j"
    by blast
  then show "fold (mosaic_block W H) (mosaic_blocks W H) d ! j =
      bmean d W (32 * (j div 4 mod W div 32)) (32 * (j div 4 div W div 32))
        (min 32 (W - 32 * (j div 4 mod W div 32))) (min 32 (H - 32 * (j div 4 div W div 32)))
        (j mod 4)"
    by (simp add: g_def R_def X_def)
qed

lemma bsum_block_sum:
  "bsum (data img) (width img) x0 y0 bw bh c = block_sum img x0 y0 bw bh c"
proof -
  have "[y0..<y0 + bh] = map (\<lambda>y. y0 + y) [0..<bh]"
    using map_add_upt[of y0 bh] by (simp add: add.commute)
  moreover have "[x0..<x0 + bw] = map (\<lambda>x. x0 + x) [0..<bw]"
    using map_add_upt[of x0 bw] by (simp add: add.commute)
  ultimately show ?thesis
    by (simp add: bsum_def block_sum_def comp_def)
qed

lemma bmean_block_mean:
  "bmean (data img) (width img) (32 * (x div 32)) (32 * (y div 32))
     (min 32 (width img - 32 * (x div 32))) (min 32 (height img - 32 * (y div 32))) c =
   block_mean img x y c"
  by (simp add: bmean_def block_mean_def Let_def bsum_block_sum mult.commute)

lemma doEncrypt_nth:
  assumes "length (data img) = width img * height img * 4"
    and "j < width img * height img * 4"
  shows "length (data (MosaicCodec_doEncrypt img)) = width img * height img * 4"
    and "data (MosaicCodec_doEncrypt img) ! j =
      block_mean img (j div 4 mod width img) (j div 4 div width img) (j mod 4)"
  using mosaic_blocks_nth[OF assms]
  by (simp_all add: doEncrypt_blocks bmean_block_mean)

lemma doEncrypt_size:
  "width (MosaicCodec_doEncrypt img) = width img"
  "height (MosaicCodec_doEncrypt img) = height img"
  by (simp_all add: doEncrypt_blocks)

lemma rounded_mean_const: "0 < n \<Longrightarrow> rounded_mean (n * u) n = u"
proof -
  assume n: "0 < n"
  have "(2 * (n * u) + n) div (2 * n) = (n + u * (2 * n)) div (2 * n)"
    by (simp add: algebra_simps)
  also have "\<dots> = n div (2 * n) + u"
    using n by (subst div_mult_self1) simp_all
  also have "\<dots> = u" using n by simp
  finally show ?thesis by (simp add: rounded_mean_def)
qed

lemma sum_list_const: "(\<And>x. x \<in> set xs \<Longrightarrow> f x = (K::nat)) \<Longrightarrow> sum_list (map f xs) = length xs * K"
  by (induction xs) simp_all

lemma bsum_const:
  assumes "\<And>i. i \<in> region W x0 y0 bw bh c \<Longrightarrow> d ! i = m"
  shows "bsum d W x0 y0 bw bh c = bw * bh * unat m"
proof -
  have e: "\<And>x y. x < bw \<Longrightarrow> y < bh \<Longrightarrow> d ! pixel_index W (x0 + x) (y0 + y) c = m"
    by (rule assms) (auto simp add: region_def)
  have "\<And>y. y \<in> set [0..<bh] \<Longrightarrow>
      (\<Sum>x \<leftarrow> [0..<bw]. unat (d ! pixel_index W (x0 + x) (y0 + y) c)) = bw * unat m"
    using sum_list_const[of "[0..<bw]" _ "unat m"] e by simp
  then have "bsum d W x0 y0 bw bh c = length [0..<bh] * (bw * unat m)"
    unfolding bsum_def by (rule sum_list_const)
  then show ?thesis by (simp add: mult.commute mult.left_commute)
qed

lemma bmean_const:
  assumes "\<And>i. i \<in> region W x0 y0 bw bh c \<Longrightarrow> d ! i = m" and "0 < bw" and "0 < bh"
  shows "bmean d W x0 y0 bw bh c = m"
  using assms(2,3) by (simp add: bmean_def bsum_const[OF assms(1)] rounded_mean_const)

lemma mosaic_blocks_idem:
  assumes len: "length d = W * H * 4"
  shows "fold (mosaic_block W H) (mosaic_blocks W H) (fold (mosaic_block W H) (mosaic_blocks W H) d) =
     fold (mosaic_block W H) (mosaic_blocks W H) d"
proof (cases "W * H * 4 = 0")
  case True
  then have "mosaic_blocks W H = []"
    by (auto simp add: mosaic_blocks_def)
  then show ?thesis by simp
next
  case False
  let ?D = "fold (mosaic_block W H) (mosaic_blocks W H) d"
  have z: "0 < W * H * 4" using False by simp
  have lenD: "length ?D = W * H * 4" using mosaic_blocks_nth(1)[OF len z] .
  show ?thesis
  proof (rule nth_equalityI)
    show "length (fold (mosaic_block W H) (mosaic_blocks W H) ?D) = length ?D"
      using mosaic_blocks_nth(1)[OF lenD z] lenD by simp
  next
    fix j assume "j < length (fold (mosaic_block W H) (mosaic_blocks W H) ?D)"
    then have j: "j < W * H * 4" using mosaic_blocks_nth(1)[OF lenD z] by simp
    define X where "X = j div 4 mod W div 32"
    define R where "R = j div 4 div W div 32"
    define bw where "bw = min 32 (W - 32 * X)"
    define bh where "bh = min 32 (H - 32 * R)"
    define c where "c = j mod 4"
    have c: "c < 4" by (simp add: c_def)
    have px: "j div 4 mod W < W" and py: "j div 4 div W < H"
      using pixel_coords_less[OF j] by simp_all
    have "32 * X \<le> j div 4 mod W" "32 * R \<le> j div 4 div W"
      unfolding X_def R_def by simp_all
    then have o: "32 * X < W" "32 * R < H" using px py by linarith+
    then have pos: "0 < bw" "0 < bh" and blk: "32 * X + bw \<le> W" "32 * R + bh \<le> H"
      and le: "bw \<le> 32" "bh \<le> 32"
      by (auto simp add: bw_def bh_def min_def)
    have D: "?D ! j = bmean d W (32 * X) (32 * R) bw bh c"
      using mosaic_blocks_nth(2)[OF len j] by (simp add: X_def R_def bw_def bh_def c_def)
    have "fold (mosaic_block W H) (mosaic_blocks W H) ?D ! j = bmean ?D W (32 * X) (32 * R) bw bh c"
      using mosaic_blocks_nth(2)[OF lenD j] by (simp add: X_def R_def bw_def bh_def c_def)
    also have "\<dots> = bmean d W (32 * X) (32 * R) bw bh c"
    proof (rule bmean_const[OF _ pos])
      fix i assume i: "i \<in> region W (32 * X) (32 * R) bw bh c"
      then have ib: "i \<in> bregion W (32 * X) (32 * R) bw bh"
        using c by (auto simp add: bregion_def)
      have iL: "i < W * H * 4" using blk c i by (rule region_less)
      have co: "i div 4 mod W div 32 = X" "i div 4 div W div 32 = R"
        using bregion_coords[OF ib le blk(1)] by simp_all
      have ic: "i mod 4 = c" using c i by (rule region_mod4)
      show "?D ! i = bmean d W (32 * X) (32 * R) bw bh c"
        using mosaic_blocks_nth(2)[OF len iL] by (simp add: co ic bw_def bh_def)
    qed
    finally show "fold (mosaic_block W H) (mosaic_blocks W H) ?D ! j = ?D ! j"
      using D by simp
  qed
qed

text \<open>
  C5. For every well-formed image the pixel step keeps the width, the height and the length
  of the data (nothing is dropped), and the byte of every channel \<open>c\<close> of every pixel
  \<open>(x, y)\<close> becomes the mean, rounded to the nearest integer (a half upwards), of that channel
  over the block of the pixel: the blocks are the squares of 32 by 32 pixels from the
  upper left corner, those of the last column and the last row clipped to the image.
\<close>

theorem MosaicCodec_block_mean:
  assumes "well_formed img" and "x < width img" and "y < height img" and "c < 4"
  shows "width (MosaicCodec_doEncrypt img) = width img \<and>
     height (MosaicCodec_doEncrypt img) = height img \<and>
     length (data (MosaicCodec_doEncrypt img)) = length (data img) \<and>
     data (MosaicCodec_doEncrypt img) ! pixel_index (width img) x y c = block_mean img x y c"
proof -
  have len: "length (data img) = width img * height img * 4"
    using assms(1) by (simp add: well_formed_def)
  have j: "pixel_index (width img) x y c < width img * height img * 4"
    using assms(2-4) by (rule pixel_index_less)
  show ?thesis
    using doEncrypt_nth[OF len j] pixel_index_parts[OF assms(2,4), of y] len
    by (simp add: doEncrypt_size)
qed

theorem MosaicCodec_block_mean_witness:
  "well_formed example_block \<and> (1::nat) < width example_block \<and> (1::nat) < height example_block \<and>
   (0::nat) < 4 \<and>
   width (MosaicCodec_doEncrypt example_block) = 2 \<and>
   height (MosaicCodec_doEncrypt example_block) = 2 \<and>
   length (data (MosaicCodec_doEncrypt example_block)) = 16 \<and>
   data (MosaicCodec_doEncrypt example_block) ! pixel_index 2 0 0 0 = 25 \<and>
   data (MosaicCodec_doEncrypt example_block) ! pixel_index 2 1 0 0 = 25 \<and>
   data (MosaicCodec_doEncrypt example_block) ! pixel_index 2 0 1 0 = 25 \<and>
   data (MosaicCodec_doEncrypt example_block) ! pixel_index 2 1 1 0 = 25"
proof -
  have w: "well_formed example_block"
    and b: "(0::nat) < width example_block" "(1::nat) < width example_block"
      "(0::nat) < height example_block" "(1::nat) < height example_block" "(0::nat) < 4"
    by (simp_all add: well_formed_def example_block_def)
  have m: "block_mean example_block 0 0 0 = 25" "block_mean example_block 1 0 0 = 25"
    "block_mean example_block 0 1 0 = 25" "block_mean example_block 1 1 0 = 25"
    by code_simp+
  from MosaicCodec_block_mean[OF w b(1) b(3) b(5)] MosaicCodec_block_mean[OF w b(2) b(3) b(5)]
    MosaicCodec_block_mean[OF w b(1) b(4) b(5)] MosaicCodec_block_mean[OF w b(2) b(4) b(5)]
    m w b
  show ?thesis
    by (simp add: example_block_def)
qed

text \<open>
  C10. For every well-formed image, the pixel step applied to its own result gives that
  result again.
\<close>

theorem MosaicCodec_idempotent:
  assumes "well_formed img"
  shows "MosaicCodec_doEncrypt (MosaicCodec_doEncrypt img) = MosaicCodec_doEncrypt img"
proof -
  have len: "length (data img) = width img * height img * 4"
    using assms by (simp add: well_formed_def)
  show ?thesis
    unfolding doEncrypt_blocks[of "MosaicCodec_doEncrypt img"]
    unfolding doEncrypt_blocks[of img]
    by (simp add: mosaic_blocks_idem[OF len])
qed

theorem MosaicCodec_idempotent_witness:
  "well_formed example_block \<and>
   MosaicCodec_doEncrypt (MosaicCodec_doEncrypt example_block) =
     MosaicCodec_doEncrypt example_block"
proof -
  have w: "well_formed example_block"
    by (simp add: well_formed_def example_block_def)
  from MosaicCodec_idempotent[OF w] w show ?thesis
    by simp
qed

subsection \<open>\<^verbatim>\<open>ShuffleBlockCodec\<close> on an image of any size\<close>

lemma copyBlock_copy_rows:
  "copyBlock dst dX dY src sX sY =
     dst\<lparr>data := copy_rows (width dst) dX dY (data src) (width src) sX sY (data dst)\<rparr>"
proof -
  have e: "\<And>W X Y y. (Y * W + X) * 8 * 4 + y * (W * 4) = pixel_index W (8 * X) (8 * Y + y) 0"
    by (simp add: pixel_index_def algebra_simps)
  have "data (copyBlock dst dX dY src sX sY) =
      copy_rows (width dst) dX dY (data src) (width src) sX sY (data dst)"
    unfolding copyBlock_rows e copy_rows_def ..
  moreover have "copyBlock dst dX dY src sX sY = dst\<lparr>data := data (copyBlock dst dX dY src sX sY)\<rparr>"
    by (simp add: copyBlock_def Let_def)
  ultimately show ?thesis by simp
qed

lemma pixel_index_add: "pixel_index W (x0 + x) y c = pixel_index W x0 y 0 + (4 * x + c)"
  by (simp add: pixel_index_def algebra_simps)

lemma pixel_index_row_le:
  assumes "y < y'" and "x0 + 8 \<le> W"
  shows "pixel_index W x0 y 0 + 32 \<le> pixel_index W x0 y' 0"
proof -
  have "Suc y * W \<le> y' * W" using assms(1) by (intro mult_le_mono1) simp
  then have "y * W + x0 + 8 \<le> y' * W + x0" using assms(2) by simp
  then have "(y * W + x0 + 8) * 4 \<le> (y' * W + x0) * 4" by (rule mult_le_mono1)
  then show ?thesis by (simp add: pixel_index_def)
qed

lemma copy_rows_length [simp]: "length (copy_rows Wd dX dY srcd Ws sX sY d) = length d"
  by (simp add: copy_rows_def)

lemma copy_rows_nth:
  assumes dst: "8 * dX + 8 \<le> Wd"
    and src: "8 * sX + 8 \<le> Ws" "8 * sY + 8 \<le> Hs" "length srcd = Ws * Hs * 4"
    and j: "j < length d"
  shows "copy_rows Wd dX dY srcd Ws sX sY d ! j =
     (if j \<in> bregion Wd (8 * dX) (8 * dY) 8 8
      then srcd ! pixel_index Ws (8 * sX + j div 4 mod Wd mod 8) (8 * sY + j div 4 div Wd mod 8)
             (j mod 4)
      else d ! j)"
proof -
  define iD where "iD = (\<lambda>y. pixel_index Wd (8 * dX) (8 * dY + y) 0)"
  define iS where "iS = (\<lambda>y. pixel_index Ws (8 * sX) (8 * sY + y) 0)"
  define Rg where "Rg = (\<lambda>y. {i. iD y \<le> i \<and> i < iD y + 32})"
  define g where "g = (\<lambda>y (d :: byte list) i. srcd ! (iS y + (i - iD y)))"
  define L where "L = length d"
  have inside: "iS y + 32 \<le> length srcd" if "y < 8" for y
  proof -
    have "pixel_index Ws (8 * sX + 7) (8 * sY + y) 3 < Ws * Hs * 4"
      using src(1,2) that by (intro pixel_index_less) simp_all
    then show ?thesis
      unfolding iS_def src(3) pixel_index_add by simp
  qed
  have fr: "length (fold (\<lambda>y d. copyBlock_row srcd (iS y) (iD y) d) [0..<8] d) = L \<and>
     (\<forall>y \<in> set [0..<8]. j \<in> Rg y \<longrightarrow>
        fold (\<lambda>y d. copyBlock_row srcd (iS y) (iD y) d) [0..<8] d ! j = g y d j) \<and>
     ((\<forall>y \<in> set [0..<8]. j \<notin> Rg y) \<longrightarrow>
        fold (\<lambda>y d. copyBlock_row srcd (iS y) (iD y) d) [0..<8] d ! j = d ! j)"
  proof (rule fold_regions[where ok = "\<lambda>y. y < 8" and L = L and Rg = Rg and g = g])
    show "\<And>y d i. y < 8 \<Longrightarrow> length d = L \<Longrightarrow> i < L \<Longrightarrow>
        copyBlock_row srcd (iS y) (iD y) d ! i = (if i \<in> Rg y then g y d i else d ! i)"
      using copyBlock_row_nth[OF _ inside] by (simp add: Rg_def g_def)
    show "\<And>y d. y < 8 \<Longrightarrow> length d = L \<Longrightarrow> length (copyBlock_row srcd (iS y) (iD y) d) = L"
      by simp
    show "\<And>y d d' i. y < 8 \<Longrightarrow> length d = L \<Longrightarrow> length d' = L \<Longrightarrow>
        (\<And>k. k \<in> Rg y \<Longrightarrow> k < L \<Longrightarrow> d ! k = d' ! k) \<Longrightarrow> g y d i = g y d' i"
      by (simp add: g_def)
    show "\<And>y y'. y < 8 \<Longrightarrow> y' < 8 \<Longrightarrow> y \<noteq> y' \<Longrightarrow> Rg y \<inter> Rg y' = {}"
    proof -
      fix y y' :: nat assume "y \<noteq> y'"
      then consider "y < y'" | "y' < y" by linarith
      then show "Rg y \<inter> Rg y' = {}"
      proof cases
        case 1
        then have "iD y + 32 \<le> iD y'"
          unfolding iD_def using dst by (intro pixel_index_row_le) simp_all
        then show ?thesis by (auto simp add: Rg_def)
      next
        case 2
        then have "iD y' + 32 \<le> iD y"
          unfolding iD_def using dst by (intro pixel_index_row_le) simp_all
        then show ?thesis by (auto simp add: Rg_def)
      qed
    qed
  qed (simp_all add: L_def j)
  have cr: "copy_rows Wd dX dY srcd Ws sX sY d =
      fold (\<lambda>y d. copyBlock_row srcd (iS y) (iD y) d) [0..<8] d"
    by (simp add: copy_rows_def iS_def iD_def)
  show ?thesis
  proof (cases "j \<in> bregion Wd (8 * dX) (8 * dY) 8 8")
    case True
    then obtain c x y where c: "c < 4" and x: "x < 8" and y: "y < 8"
      and jj: "j = pixel_index Wd (8 * dX + x) (8 * dY + y) c"
      by (auto simp add: bregion_def region_def)
    have xw: "8 * dX + x < Wd" using x dst by simp
    have co: "j div 4 mod Wd = 8 * dX + x" "j div 4 div Wd = 8 * dY + y" "j mod 4 = c"
      unfolding jj using pixel_index_parts[OF xw c] by simp_all
    have ji: "j = iD y + (4 * x + c)" unfolding jj iD_def by (rule pixel_index_add)
    have "4 * x + c < 32" using x c by simp
    then have "j \<in> Rg y" unfolding Rg_def ji by simp
    then have "copy_rows Wd dX dY srcd Ws sX sY d ! j = g y d j"
      using fr y unfolding cr by simp
    also have "\<dots> = srcd ! pixel_index Ws (8 * sX + x) (8 * sY + y) c"
      unfolding g_def ji iS_def pixel_index_add[of Ws "8 * sX" x] by simp
    finally show ?thesis using True x y by (simp add: co)
  next
    case False
    have "j \<notin> Rg y" if y: "y < 8" for y
    proof
      assume "j \<in> Rg y"
      then have le: "iD y \<le> j" "j - iD y < 32" by (auto simp add: Rg_def)
      define i where "i = j - iD y"
      have "j = iD y + (4 * (i div 4) + i mod 4)" using le(1) by (simp add: i_def)
      then have "j = pixel_index Wd (8 * dX + i div 4) (8 * dY + y) (i mod 4)"
        unfolding iD_def pixel_index_add[of Wd "8 * dX" "i div 4"] .
      moreover have "i div 4 < 8" using le(2) by (simp add: i_def)
      ultimately have "j \<in> region Wd (8 * dX) (8 * dY) 8 8 (i mod 4)"
        unfolding region_def using y by blast
      then have "j \<in> bregion Wd (8 * dX) (8 * dY) 8 8"
        by (auto simp add: bregion_def)
      then show False using False by simp
    qed
    then have "copy_rows Wd dX dY srcd Ws sX sY d ! j = d ! j"
      using fr unfolding cr by simp
    then show ?thesis using False by simp
  qed
qed

lemma block_coords:
  assumes "j \<in> bregion W (8 * X) (8 * Y) 8 8" and "8 * X + 8 \<le> W"
  shows "j div 4 mod W div 8 = X" and "j div 4 div W div 8 = Y"
proof -
  from assms(1) obtain c x y where c: "c < 4" and x: "x < 8" and y: "y < 8"
    and j: "j = pixel_index W (8 * X + x) (8 * Y + y) c"
    by (auto simp add: bregion_def region_def)
  have xw: "8 * X + x < W" using x assms(2) by simp
  have "j div 4 mod W = 8 * X + x" "j div 4 div W = 8 * Y + y"
    unfolding j using pixel_index_parts(2,3)[OF xw c] by simp_all
  then show "j div 4 mod W div 8 = X" and "j div 4 div W div 8 = Y"
    using x y by simp_all
qed

lemma copy_steps_data:
  "fold (\<lambda>k r. copyBlock r (dX k) (dY k) img (sX k) (sY k)) ks r0 =
     r0\<lparr>data := fold (\<lambda>k. copy_rows (width r0) (dX k) (dY k) (data img) (width img) (sX k) (sY k))
       ks (data r0)\<rparr>"
  unfolding copyBlock_copy_rows
  using fold_data[of "\<lambda>k W H. copy_rows W (dX k) (dY k) (data img) (width img) (sX k) (sY k)" ks r0]
  by simp

text \<open>
  The data after \<open>n\<close> block copies, the \<open>k\<close>-th from the block number \<open>sB k\<close> of the
  source to the block number \<open>dB k\<close> of the destination, no destination block twice.
\<close>

lemma copy_steps_nth:
  fixes dB sB :: "nat \<Rightarrow> nat"
  assumes bw: "0 < bw"
    and src: "bw * 8 \<le> Ws" "bh * 8 \<le> Hs" "length srcd = Ws * Hs * 4"
    and rng: "\<And>i. i < n \<Longrightarrow> dB i < bh * bw \<and> sB i < bh * bw"
    and inj: "\<And>i i'. i < n \<Longrightarrow> i' < n \<Longrightarrow> dB i = dB i' \<Longrightarrow> i = i'"
    and len: "length d = bw * 8 * (bh * 8) * 4"
    and k: "k < n" and p: "px < 8" "py < 8" "c < 4"
  shows "fold (\<lambda>k. copy_rows (bw * 8) (dB k mod bw) (dB k div bw) srcd Ws (sB k mod bw) (sB k div bw))
       [0..<n] d ! pixel_index (bw * 8) (8 * (dB k mod bw) + px) (8 * (dB k div bw) + py) c =
     srcd ! pixel_index Ws (8 * (sB k mod bw) + px) (8 * (sB k div bw) + py) c"
proof -
  define f where
    "f = (\<lambda>k. copy_rows (bw * 8) (dB k mod bw) (dB k div bw) srcd Ws (sB k mod bw) (sB k div bw))"
  define Rg where "Rg = (\<lambda>k. bregion (bw * 8) (8 * (dB k mod bw)) (8 * (dB k div bw)) 8 8)"
  define g where "g = (\<lambda>k (d :: byte list) j.
      srcd ! pixel_index Ws (8 * (sB k mod bw) + j div 4 mod (bw * 8) mod 8)
        (8 * (sB k div bw) + j div 4 div (bw * 8) mod 8) (j mod 4))"
  define L where "L = bw * 8 * (bh * 8) * 4"
  define j where "j = pixel_index (bw * 8) (8 * (dB k mod bw) + px) (8 * (dB k div bw) + py) c"
  have dstX: "8 * (dB i mod bw) + 8 \<le> bw * 8" for i
  proof -
    have "dB i mod bw < bw" using bw by simp
    then show ?thesis by linarith
  qed
  have srcX: "8 * (sB i mod bw) + 8 \<le> Ws" for i
  proof -
    have "sB i mod bw < bw" using bw by simp
    then show ?thesis using src(1) by linarith
  qed
  have srcY: "8 * (sB i div bw) + 8 \<le> Hs" if "i < n" for i
  proof -
    have "sB i div bw < bh" using bw rng[OF that] by (simp add: div_less_blocks)
    then show ?thesis using src(2) by linarith
  qed
  have dstY: "dB i div bw < bh" if "i < n" for i
    using bw rng[OF that] by (simp add: div_less_blocks)
  have jL: "j < L"
  proof -
    have "8 * (dB k mod bw) + px < bw * 8" using dstX[of k] p(1) by linarith
    moreover have "8 * (dB k div bw) + py < bh * 8" using dstY[OF k] p(2) by linarith
    ultimately show ?thesis unfolding j_def L_def using p(3) by (intro pixel_index_less)
  qed
  have fr: "length (fold f [0..<n] d) = L \<and>
     (\<forall>i \<in> set [0..<n]. j \<in> Rg i \<longrightarrow> fold f [0..<n] d ! j = g i d j) \<and>
     ((\<forall>i \<in> set [0..<n]. j \<notin> Rg i) \<longrightarrow> fold f [0..<n] d ! j = d ! j)"
  proof (rule fold_regions[where ok = "\<lambda>i. i < n" and L = L and Rg = Rg and g = g])
    show "\<And>i d j. i < n \<Longrightarrow> length d = L \<Longrightarrow> j < L \<Longrightarrow>
        f i d ! j = (if j \<in> Rg i then g i d j else d ! j)"
      unfolding f_def Rg_def g_def
      using copy_rows_nth[OF dstX srcX srcY src(3)] by simp
    show "\<And>i d. i < n \<Longrightarrow> length d = L \<Longrightarrow> length (f i d) = L"
      by (simp add: f_def)
    show "\<And>i d d' j. i < n \<Longrightarrow> length d = L \<Longrightarrow> length d' = L \<Longrightarrow>
        (\<And>k. k \<in> Rg i \<Longrightarrow> k < L \<Longrightarrow> d ! k = d' ! k) \<Longrightarrow> g i d j = g i d' j"
      by (simp add: g_def)
    show "\<And>i i'. i < n \<Longrightarrow> i' < n \<Longrightarrow> i \<noteq> i' \<Longrightarrow> Rg i \<inter> Rg i' = {}"
    proof -
      fix i i' assume i: "i < n" "i' < n" "i \<noteq> i'"
      {
        fix q assume q: "q \<in> Rg i" "q \<in> Rg i'"
        have "dB i mod bw = dB i' mod bw" "dB i div bw = dB i' div bw"
          using block_coords[OF _ dstX[of i], of q "dB i div bw"]
            block_coords[OF _ dstX[of i'], of q "dB i' div bw"] q
          by (simp_all add: Rg_def)
        then have "dB i = dB i'" by (metis div_mult_mod_eq)
        then have False using inj[OF i(1,2)] i(3) by simp
      }
      then show "Rg i \<inter> Rg i' = {}" by blast
    qed
  qed (use len jL in \<open>simp_all add: L_def\<close>)
  have xw: "8 * (dB k mod bw) + px < bw * 8" using dstX[of k] p(1) by linarith
  have co: "j div 4 mod (bw * 8) = 8 * (dB k mod bw) + px"
    "j div 4 div (bw * 8) = 8 * (dB k div bw) + py" "j mod 4 = c"
    unfolding j_def using pixel_index_parts[OF xw p(3)] by simp_all
  have "j \<in> region (bw * 8) (8 * (dB k mod bw)) (8 * (dB k div bw)) 8 8 c"
    unfolding region_def j_def using p(1,2) by blast
  then have "j \<in> Rg k" unfolding Rg_def bregion_def using p(3) by auto
  then have "fold f [0..<n] d ! j = g k d j" using fr k by simp
  also have "\<dots> = srcd ! pixel_index Ws (8 * (sB k mod bw) + px) (8 * (sB k div bw) + py) c"
    unfolding g_def co using p(1,2) by simp
  finally show ?thesis unfolding f_def j_def .
qed

text \<open>
  With at least one whole block in each direction \<^verbatim>\<open>createImageData\<close> succeeds, whether or
  not the sides are multiples of 8: encode and decode each give image data of
  \<open>width div 8 * 8\<close> by \<open>height div 8 * 8\<close> pixels. Every byte of it is a byte of a whole
  block of the input: encode puts the \<open>k\<close>-th whole block of the input, counted row by row,
  in the place of the block whose number is the \<open>k\<close>-th output of the sequence, and decode
  puts the block with that number in the place of the \<open>k\<close>-th. The pixels to the right of
  the last whole block of a row and below the last row of whole blocks are in no output.
\<close>

lemma ShuffleBlockCodec_whole_blocks:
  assumes wf: "well_formed img" and w: "8 \<le> width img" and h: "8 \<le> height img"
    and perm: "permutation_sequence RandomSequence (width img div 8 * (height img div 8)) seed"
  shows "\<exists>enc dec.
     ShuffleBlockCodec_doEncrypt RandomSequence seed img = Inr enc \<and>
     ShuffleBlockCodec_doDecrypt RandomSequence seed img = Inr dec \<and>
     width enc = width img div 8 * 8 \<and> height enc = height img div 8 * 8 \<and>
     length (data enc) = width enc * height enc * 4 \<and>
     width dec = width img div 8 * 8 \<and> height dec = height img div 8 * 8 \<and>
     length (data dec) = width dec * height dec * 4 \<and>
     (\<forall>k < width img div 8 * (height img div 8). \<forall>px < 8. \<forall>py < 8. \<forall>c < 4.
        data enc ! pixel_index (width img div 8 * 8)
            (8 * (RandomSequence (width img div 8 * (height img div 8)) seed ! k mod (width img div 8)) + px)
            (8 * (RandomSequence (width img div 8 * (height img div 8)) seed ! k div (width img div 8)) + py) c =
          data img ! pixel_index (width img)
            (8 * (k mod (width img div 8)) + px) (8 * (k div (width img div 8)) + py) c \<and>
        data dec ! pixel_index (width img div 8 * 8)
            (8 * (k mod (width img div 8)) + px) (8 * (k div (width img div 8)) + py) c =
          data img ! pixel_index (width img)
            (8 * (RandomSequence (width img div 8 * (height img div 8)) seed ! k mod (width img div 8)) + px)
            (8 * (RandomSequence (width img div 8 * (height img div 8)) seed ! k div (width img div 8)) + py) c)"
proof -
  define bw where "bw = width img div 8"
  define bh where "bh = height img div 8"
  define seq where "seq = RandomSequence (bw * bh) seed"
  define enc where "enc = enc_steps bw seq img (bh * bw) (blank bw bh)"
  define dec where "dec = dec_steps bw seq img (bh * bw) (blank bw bh)"
  have bw: "0 < bw" and bh: "0 < bh"
    using w h by (simp_all add: bw_def bh_def div_greater_zero_iff)
  have src: "bw * 8 \<le> width img" "bh * 8 \<le> height img"
    "length (data img) = width img * height img * 4"
    using wf by (simp_all add: bw_def bh_def well_formed_def)
  have p: "permutation_sequence RandomSequence (bw * bh) seed"
    using perm by (simp add: bw_def bh_def)
  have sl: "length seq = bh * bw" and sd: "distinct seq" and ss: "set seq = {0..<bh * bw}"
    using permutation_sequence_facts[OF p] by (simp_all add: seq_def mult.commute)
  have sr: "seq ! i < bh * bw" if "i < bh * bw" for i
  proof -
    have "seq ! i \<in> set seq" using that sl by simp
    then show ?thesis by (simp add: ss)
  qed
  have e: "ShuffleBlockCodec_doEncrypt RandomSequence seed img = Inr enc"
    using doEncrypt_result[OF w h perm] by (simp add: enc_def seq_def bw_def bh_def)
  have d: "ShuffleBlockCodec_doDecrypt RandomSequence seed img = Inr dec"
    using doDecrypt_result[OF w h perm] by (simp add: dec_def seq_def bw_def bh_def)
  have ed: "data enc = fold (\<lambda>k. copy_rows (bw * 8) (seq ! k mod bw) (seq ! k div bw) (data img)
      (width img) (k mod bw) (k div bw)) [0..<bh * bw] (data (blank bw bh))"
    unfolding enc_def enc_steps_def copy_steps_data by simp
  have dd: "data dec = fold (\<lambda>k. copy_rows (bw * 8) (k mod bw) (k div bw) (data img)
      (width img) (seq ! k mod bw) (seq ! k div bw)) [0..<bh * bw] (data (blank bw bh))"
    unfolding dec_def dec_steps_def copy_steps_data by simp
  have lb: "length (data (blank bw bh)) = bw * 8 * (bh * 8) * 4" by simp
  have en: "data enc ! pixel_index (bw * 8) (8 * (seq ! k mod bw) + px) (8 * (seq ! k div bw) + py) c =
      data img ! pixel_index (width img) (8 * (k mod bw) + px) (8 * (k div bw) + py) c"
    if "k < bh * bw" "px < 8" "py < 8" "c < 4" for k px py c
    unfolding ed
  proof (rule copy_steps_nth[where dB = "\<lambda>k. seq ! k" and sB = "\<lambda>k. k" and bh = bh,
        OF bw src _ _ lb that])
    show "\<And>i. i < bh * bw \<Longrightarrow> seq ! i < bh * bw \<and> i < bh * bw"
      using sr by simp
    show "\<And>i i'. i < bh * bw \<Longrightarrow> i' < bh * bw \<Longrightarrow> seq ! i = seq ! i' \<Longrightarrow> i = i'"
      using sd sl by (simp add: nth_eq_iff_index_eq)
  qed
  have de: "data dec ! pixel_index (bw * 8) (8 * (k mod bw) + px) (8 * (k div bw) + py) c =
      data img ! pixel_index (width img) (8 * (seq ! k mod bw) + px) (8 * (seq ! k div bw) + py) c"
    if "k < bh * bw" "px < 8" "py < 8" "c < 4" for k px py c
    unfolding dd
  proof (rule copy_steps_nth[where dB = "\<lambda>k. k" and sB = "\<lambda>k. seq ! k" and bh = bh,
        OF bw src _ _ lb that])
    show "\<And>i. i < bh * bw \<Longrightarrow> i < bh * bw \<and> seq ! i < bh * bw"
      using sr by simp
    show "\<And>i i'. i < bh * bw \<Longrightarrow> i' < bh * bw \<Longrightarrow> i = i' \<Longrightarrow> i = i'"
      by simp
  qed
  have fr: "width enc = bw * 8" "height enc = bh * 8" "length (data enc) = bw * 8 * (bh * 8) * 4"
    "width dec = bw * 8" "height dec = bh * 8" "length (data dec) = bw * 8 * (bh * 8) * 4"
    by (simp_all add: enc_def dec_def)
  show ?thesis
    unfolding e d bw_def[symmetric] bh_def[symmetric] seq_def[symmetric]
    using fr en de by (simp add: mult.commute)
qed

text \<open>
  An image of 10 by 10 pixels has one whole block. Its encode is 8 by 8 pixels, and the
  pixel \<open>(7, 7)\<close> of the output is the pixel \<open>(7, 7)\<close> of the input, at another index of
  the data.
\<close>

lemma ShuffleBlockCodec_whole_blocks_example:
  "\<exists>enc. ShuffleBlockCodec_doEncrypt example_sequence (0::nat)
       \<lparr>width = 10, height = 10, data = map of_nat [0..<400]\<rparr> = Inr enc \<and>
     width enc = 8 \<and> height enc = 8 \<and> length (data enc) = 256 \<and>
     pixel_index 8 7 7 0 = 252 \<and> pixel_index 10 7 7 0 = 308 \<and>
     data enc ! 252 = 52 \<and> data enc ! 253 = 53 \<and> data enc ! 254 = 54 \<and> data enc ! 255 = 55"
proof -
  let ?img = "\<lparr>width = 10, height = 10, data = map of_nat [0..<400]\<rparr> :: ImageData"
  have wf: "well_formed ?img" by (simp add: well_formed_def)
  have g: "8 \<le> width ?img" "8 \<le> height ?img" by simp_all
  have p: "permutation_sequence example_sequence (width ?img div 8 * (height ?img div 8)) (0::nat)"
    by (rule example_sequence_permutation)
  from ShuffleBlockCodec_whole_blocks[OF wf g p]
  obtain enc where enc: "ShuffleBlockCodec_doEncrypt example_sequence (0::nat) ?img = Inr enc"
    "width enc = 8" "height enc = 8" "length (data enc) = 256"
    and px: "\<And>px py c. px < 8 \<Longrightarrow> py < 8 \<Longrightarrow> c < 4 \<Longrightarrow>
      data enc ! pixel_index 8 px py c = data ?img ! pixel_index 10 px py c"
    by (auto simp add: example_sequence_def)
  have i: "pixel_index 8 7 7 0 = 252" "pixel_index 8 7 7 1 = 253" "pixel_index 8 7 7 2 = 254"
    "pixel_index 8 7 7 3 = 255" "pixel_index 10 7 7 0 = 308" "pixel_index 10 7 7 1 = 309"
    "pixel_index 10 7 7 2 = 310" "pixel_index 10 7 7 3 = 311"
    by (simp_all add: pixel_index_def)
  have "data enc ! 252 = 52" "data enc ! 253 = 53" "data enc ! 254 = 54" "data enc ! 255 = 55"
    using px[of 7 7 0] px[of 7 7 1] px[of 7 7 2] px[of 7 7 3] unfolding i by simp_all
  then show ?thesis using enc i by simp
qed

text \<open>
  C7. The claim gives every buffer whose width or height is not a multiple of 8 an output
  of \<open>width div 8 * 8\<close> by \<open>height div 8 * 8\<close> pixels. The code does so for a buffer
  of at least 8 by 8 pixels, as shown above. For a buffer with a side shorter than 8 pixels
  there is no whole block in that direction: \<^verbatim>\<open>_doCommon\<close> calls
  \<^verbatim>\<open>createImageData\<close> with a zero side (line 186), which throws, and neither encode nor
  decode has an output, whatever the sequence and the seed. An image 7 pixels wide and 10
  high is one of them.
\<close>

theorem ShuffleBlockCodec_short_side:
  assumes "width img < 8 \<or> height img < 8"
  shows "ShuffleBlockCodec_doEncrypt RandomSequence seed img = Inl IndexSizeError \<and>
     ShuffleBlockCodec_doDecrypt RandomSequence seed img = Inl IndexSizeError"
proof -
  have "width img div 8 * 8 = 0 \<or> height img div 8 * 8 = 0"
    using assms by auto
  then have "createImageData (width img div 8 * 8) (height img div 8 * 8) = Inl IndexSizeError"
    by (simp add: createImageData_def)
  then show ?thesis
    by (simp add: ShuffleBlockCodec_doEncrypt_def ShuffleBlockCodec_doDecrypt_def
        ShuffleBlockCodec_doCommon_def Let_def)
qed

theorem ShuffleBlockCodec_short_side_witness:
  "well_formed \<lparr>width = 7, height = 10, data = replicate 280 0\<rparr> \<and>
   \<not> (8::nat) dvd 7 \<and>
   ((7::nat) < 8 \<or> (10::nat) < 8) \<and>
   ShuffleBlockCodec_doEncrypt example_sequence (0::nat)
     \<lparr>width = 7, height = 10, data = replicate 280 0\<rparr> = Inl IndexSizeError \<and>
   ShuffleBlockCodec_doDecrypt example_sequence (0::nat)
     \<lparr>width = 7, height = 10, data = replicate 280 0\<rparr> = Inl IndexSizeError"
  using ShuffleBlockCodec_short_side
    [of "\<lparr>width = 7, height = 10, data = replicate 280 0\<rparr>" example_sequence "0::nat"]
  by (simp add: well_formed_def)

end
